theory Spec2Isabelle
  imports Main "HOL-Library.AList"
begin

section \<open>JavaScript values and the object heap\<close>

text \<open>
  The extractor works on a parsed OpenAPI document, a graph of JavaScript objects.
  A value is a primitive or a reference to a heap cell; a heap cell is a plain object
  (its own properties in enumeration order) or an array.  Addresses are indices into
  the heap, so allocation appends a cell.  Strings are sequences of 8-bit code units
  (the Latin-1 range of JavaScript's strings); numbers are abstracted to integers, only
  their truthiness is ever inspected.
\<close>

datatype val =
    VUndefined
  | VNull
  | VBool bool
  | VNum int
  | VStr string
  | VRef nat

datatype hobj =
    Obj "(string \<times> val) list"
  | Arr "val list"

type_synonym heap = "hobj list"

text \<open>JavaScript truthiness (objects and arrays are always truthy).\<close>

fun truthy :: "val \<Rightarrow> bool" where
  "truthy VUndefined = False"
| "truthy VNull = False"
| "truthy (VBool b) = b"
| "truthy (VNum n) = (n \<noteq> 0)"
| "truthy (VStr s) = (s \<noteq> [])"
| "truthy (VRef a) = True"

text \<open>\<open>a ?? b\<close>: the left operand unless it is null or undefined.\<close>

fun nullish :: "val \<Rightarrow> val \<Rightarrow> val" where
  "nullish VUndefined w = w"
| "nullish VNull w = w"
| "nullish v w = v"

text \<open>\<open>a || b\<close> on values.\<close>

definition js_or :: "val \<Rightarrow> val \<Rightarrow> val" where
  "js_or v w = (if truthy v then v else w)"

text \<open>An optional string field as a value: absent is \<open>undefined\<close>.\<close>

fun opt_str :: "string option \<Rightarrow> val" where
  "opt_str None = VUndefined"
| "opt_str (Some s) = VStr s"

section \<open>Strings: trimming, lower case, decimal numerals\<close>

text \<open>
  \<open>String.prototype.trim\<close> removes leading and trailing white space and line
  terminators; in the 8-bit range these are TAB, LF, VT, FF, CR, SPACE and NBSP.
\<close>

definition is_ws :: "char \<Rightarrow> bool" where
  "is_ws c = (of_char c \<in> {9, 10, 11, 12, 13, 32, 160 :: nat})"

definition trim :: "string \<Rightarrow> string" where
  "trim s = rev (dropWhile is_ws (rev (dropWhile is_ws s)))"

text \<open>
  \<open>String.prototype.toLowerCase\<close> on the 8-bit range: \<open>A\<close>..\<open>Z\<close> and the Latin-1
  capitals \<open>0xC0\<close>..\<open>0xDE\<close> (without the multiplication sign \<open>0xD7\<close>) move up by 32.
\<close>

definition lower_char :: "char \<Rightarrow> char" where
  "lower_char c =
     (let n = (of_char c :: nat) in
      if (65 \<le> n \<and> n \<le> 90) \<or> (192 \<le> n \<and> n \<le> 222 \<and> n \<noteq> 215)
      then char_of (n + 32) else c)"

definition toLowerCase :: "string \<Rightarrow> string" where
  "toLowerCase s = map lower_char s"

section \<open>Diagnostics\<close>

text \<open>Every \<open>console.warn\<close> of the source appends one entry to the log.\<close>

datatype error = TypeError

datatype diag =
    InvalidXmcpOperation string val
  | InvalidXmcpPath val
  | InvalidXmcpRoot val bool
  | XmcpEvalError string val error
  | UnresolvedRef val
  | CycleDetected val

section \<open>The OpenAPI document\<close>

text \<open>
  The enumeration \<open>OpenAPIV3.HttpMethods\<close> of the \<open>openapi-types\<close> package, in its
  declaration order, which is the order \<open>Object.values\<close> iterates.
\<close>

datatype httpMethod = GET | PUT | POST | DELETE | OPTIONS | HEAD | PATCH | TRACE

definition HttpMethods :: "httpMethod list" where
  "HttpMethods = [GET, PUT, POST, DELETE, OPTIONS, HEAD, PATCH, TRACE]"

fun method_str :: "httpMethod \<Rightarrow> string" where
  "method_str GET = ''get''"
| "method_str PUT = ''put''"
| "method_str POST = ''post''"
| "method_str DELETE = ''delete''"
| "method_str OPTIONS = ''options''"
| "method_str HEAD = ''head''"
| "method_str PATCH = ''patch''"
| "method_str TRACE = ''trace''"

fun method_upper :: "httpMethod \<Rightarrow> string" where
  "method_upper GET = ''GET''"
| "method_upper PUT = ''PUT''"
| "method_upper POST = ''POST''"
| "method_upper DELETE = ''DELETE''"
| "method_upper OPTIONS = ''OPTIONS''"
| "method_upper HEAD = ''HEAD''"
| "method_upper PATCH = ''PATCH''"
| "method_upper TRACE = ''TRACE''"

type_synonym secreq = "(string \<times> string list) list"

text \<open>The \<open>security\<close> field of an operation: absent, explicitly \<open>null\<close>, or an array.\<close>

datatype security_field = SecAbsent | SecNull | SecArray "secreq list"

text \<open>
  A parameter entry.  An entry without a name (an unresolved \<open>$ref\<close> cast to a
  parameter object, for instance) has \<open>p_name = None\<close>; its schema is a value, \<open>undefined\<close>
  when absent.
\<close>

record parameter =
  p_name :: "string option"
  p_in :: "string option"
  p_description :: "string option"
  p_required :: bool
  p_schema :: val

record mediaType =
  mt_schema :: val

record requestBody =
  rb_description :: "string option"
  rb_required :: bool
  rb_content :: "(string \<times> mediaType) list option"

record operation =
  op_operationId :: "string option"
  op_description :: "string option"
  op_summary :: "string option"
  op_x_mcp :: val
  op_parameters :: "parameter list option"
  op_requestBody :: "requestBody option"
  op_security :: security_field

record pathItem =
  pi_x_mcp :: val
  pi_parameters :: "parameter list option"
  pi_operations :: "httpMethod \<rightharpoonup> operation"

record document =
  api_x_mcp :: val
  api_security :: "secreq list option"
  api_paths :: "(string \<times> pathItem option) list option"

section \<open>The inclusion filter (utils/helpers.ts)\<close>

definition normalizeBoolean :: "val \<Rightarrow> bool option" where
  "normalizeBoolean v =
     (case v of
        VBool b \<Rightarrow> Some b
      | VStr s \<Rightarrow>
          (let normalized = toLowerCase (trim s) in
           if normalized \<in> set [''true'', ''1'', ''yes'', ''on''] then Some True
           else if normalized \<in> set [''false'', ''0'', ''no'', ''off''] then Some False
           else None)
      | _ \<Rightarrow> None)"

text \<open>
  \<open>shouldIncludeOperationForMcp\<close>: the decision together with the warnings it prints.
\<close>

definition shouldIncludeOperationForMcp ::
  "document \<Rightarrow> pathItem \<Rightarrow> operation \<Rightarrow> bool \<Rightarrow> bool \<times> diag list" where
  "shouldIncludeOperationForMcp api pathItem operation defaultInclude =
     (let opRaw = op_x_mcp operation in
      case normalizeBoolean opRaw of
        Some opVal \<Rightarrow> (opVal, [])
      | None \<Rightarrow>
         (let w1 = (if opRaw \<noteq> VUndefined
                    then [InvalidXmcpOperation
                            (case op_operationId operation of
                               None \<Rightarrow> ''[no operationId]'' | Some i \<Rightarrow> i) opRaw]
                    else []);
              pathRaw = pi_x_mcp pathItem in
          case normalizeBoolean pathRaw of
            Some pathVal \<Rightarrow> (pathVal, w1)
          | None \<Rightarrow>
             (let w2 = (if pathRaw \<noteq> VUndefined then [InvalidXmcpPath pathRaw] else []);
                  rootRaw = api_x_mcp api in
              case normalizeBoolean rootRaw of
                Some rootVal \<Rightarrow> (rootVal, w1 @ w2)
              | None \<Rightarrow>
                 (let w3 = (if rootRaw \<noteq> VUndefined
                            then [InvalidXmcpRoot rootRaw defaultInclude] else [])
                  in (defaultInclude, w1 @ w2 @ w3)))))"

text \<open>
  The claim's notion of a well-formed extension value, in the specification's words:
  a boolean, or a string equal to one of the eight words when case is ignored.
\<close>

definition ci_equal :: "string \<Rightarrow> string \<Rightarrow> bool" where
  "ci_equal s w = (toLowerCase s = toLowerCase w)"

definition true_words :: "string list" where
  "true_words = [''true'', ''1'', ''yes'', ''on'']"

definition false_words :: "string list" where
  "false_words = [''false'', ''0'', ''no'', ''off'']"

definition spec_reading :: "val \<Rightarrow> bool option" where
  "spec_reading v =
     (case v of
        VBool b \<Rightarrow> Some b
      | VStr s \<Rightarrow>
          (if list_ex (ci_equal s) true_words then Some True
           else if list_ex (ci_equal s) false_words then Some False
           else None)
      | _ \<Rightarrow> None)"

definition spec_precedence :: "val \<Rightarrow> val \<Rightarrow> val \<Rightarrow> bool \<Rightarrow> bool" where
  "spec_precedence opRaw pathRaw rootRaw defaultInclude =
     (case spec_reading opRaw of
        Some b \<Rightarrow> b
      | None \<Rightarrow>
         (case spec_reading pathRaw of
            Some b \<Rightarrow> b
          | None \<Rightarrow>
             (case spec_reading rootRaw of
                Some b \<Rightarrow> b
              | None \<Rightarrow> defaultInclude)))"

text \<open>The same reading after surrounding white space has been trimmed.\<close>

definition trimmed_reading :: "val \<Rightarrow> bool option" where
  "trimmed_reading v =
     (case v of VStr s \<Rightarrow> spec_reading (VStr (trim s)) | _ \<Rightarrow> spec_reading v)"

definition trimmed_precedence :: "val \<Rightarrow> val \<Rightarrow> val \<Rightarrow> bool \<Rightarrow> bool" where
  "trimmed_precedence opRaw pathRaw rootRaw defaultInclude =
     (case trimmed_reading opRaw of
        Some b \<Rightarrow> b
      | None \<Rightarrow>
         (case trimmed_reading pathRaw of
            Some b \<Rightarrow> b
          | None \<Rightarrow>
             (case trimmed_reading rootRaw of
                Some b \<Rightarrow> b
              | None \<Rightarrow> defaultInclude)))"

section \<open>Heap operations\<close>

text \<open>Decimal rendering of a number, as a template literal or an array index prints it.\<close>

definition digit :: "nat \<Rightarrow> char" where
  "digit d = char_of (48 + d)"

fun dec :: "nat \<Rightarrow> string" where
  "dec n = (if n < 10 then [digit n] else dec (n div 10) @ [digit (n mod 10)])"

declare dec.simps [simp del]

definition cell :: "heap \<Rightarrow> nat \<Rightarrow> hobj" where
  "cell h a = (if a < length h then h ! a else Obj [])"

text \<open>Own enumerable properties: of an array, its indices.\<close>

fun entries_of :: "hobj \<Rightarrow> (string \<times> val) list" where
  "entries_of (Obj es) = es"
| "entries_of (Arr xs) = zip (map dec [0..<length xs]) xs"

text \<open>\<open>o.k\<close> for the property names the extractor reads (none of them an array's own).\<close>

definition getProp :: "heap \<Rightarrow> nat \<Rightarrow> string \<Rightarrow> val" where
  "getProp h a k =
     (case cell h a of
        Obj es \<Rightarrow> (case map_of es k of None \<Rightarrow> VUndefined | Some v \<Rightarrow> v)
      | Arr xs \<Rightarrow> VUndefined)"

text \<open>\<open>k in o\<close>.\<close>

definition hasProp :: "heap \<Rightarrow> nat \<Rightarrow> string \<Rightarrow> bool" where
  "hasProp h a k =
     (case cell h a of Obj es \<Rightarrow> k \<in> fst ` set es | Arr xs \<Rightarrow> False)"

text \<open>
  \<open>o[k] = v\<close> and \<open>delete o[k]\<close> on a plain object: an existing key keeps its
  position, a new key goes last (the keys the extractor assigns are not integer-like, or
  they arrive in enumeration order, in the loop over \<open>Object.entries\<close>).  The name
  \<open>__proto__\<close> is an accessor of \<open>Object.prototype\<close>: unless the object has an own
  property of that name, the assignment goes to the prototype (which is not modelled)
  and creates no own property.
\<close>

definition setProp :: "nat \<Rightarrow> string \<Rightarrow> val \<Rightarrow> heap \<Rightarrow> heap" where
  "setProp a k v h =
     (case cell h a of
        Obj es \<Rightarrow>
          if k = ''__proto__'' \<and> k \<notin> fst ` set es then h
          else h[a := Obj (AList.update k v es)]
      | Arr xs \<Rightarrow> h)"

definition delProp :: "nat \<Rightarrow> string \<Rightarrow> heap \<Rightarrow> heap" where
  "delProp a k h =
     (case cell h a of
        Obj es \<Rightarrow> h[a := Obj (AList.delete k es)]
      | Arr xs \<Rightarrow> h)"

text \<open>\<open>Object.entries(v)\<close> for a truthy \<open>v\<close>.\<close>

definition object_entries :: "heap \<Rightarrow> val \<Rightarrow> (string \<times> val) list" where
  "object_entries h v =
     (case v of
        VRef p \<Rightarrow> entries_of (cell h p)
      | VStr s \<Rightarrow> zip (map dec [0..<length s]) (map (\<lambda>c. VStr [c]) s)
      | _ \<Rightarrow> [])"

section \<open>The schema mapper (parser/extract-tools.ts)\<close>

text \<open>
  The mapper's state: the heap, the \<open>seen\<close> set of the traversal (a \<open>WeakSet\<close> of
  object identities, here addresses) and the log.
\<close>

record mstate =
  heap :: heap
  seen :: "nat set"
  log :: "diag list"

type_synonym 'a result = "((error + 'a) \<times> mstate) option"

text \<open>
  A computation either runs out of fuel (\<open>None\<close>), throws, or returns a value; in the
  last two cases it leaves a state behind.  \<open>bindR\<close> sequences two computations,
  \<open>finallyR\<close> is the \<open>finally\<close> block.
\<close>

fun bindR :: "'a result \<Rightarrow> ('a \<Rightarrow> mstate \<Rightarrow> 'b result) \<Rightarrow> 'b result" where
  "bindR None f = None"
| "bindR (Some (Inl e, st)) f = Some (Inl e, st)"
| "bindR (Some (Inr x, st)) f = f x st"

fun finallyR :: "'a result \<Rightarrow> (mstate \<Rightarrow> mstate) \<Rightarrow> 'a result" where
  "finallyR None g = None"
| "finallyR (Some (r, st)) g = Some (r, g st)"

definition warn :: "diag \<Rightarrow> mstate \<Rightarrow> mstate" where
  "warn d st = st\<lparr>log := log st @ [d]\<rparr>"

definition setPropS :: "nat \<Rightarrow> string \<Rightarrow> val \<Rightarrow> mstate \<Rightarrow> mstate" where
  "setPropS a k v st = st\<lparr>heap := setProp a k v (heap st)\<rparr>"

definition allocS :: "hobj \<Rightarrow> mstate \<Rightarrow> nat \<times> mstate" where
  "allocS c st = (length (heap st), st\<lparr>heap := heap st @ [c]\<rparr>)"

text \<open>\<open>return { type: 'object' }\<close>\<close>

definition genericObject :: "mstate \<Rightarrow> (error + val) \<times> mstate" where
  "genericObject st =
     (let (g, st') = allocS (Obj [(''type'', VStr ''object'')]) st in (Inr (VRef g), st'))"

text \<open>
  Folding \<open>nullable\<close> into the type of the copy \<open>j\<close>: an array type gets \<open>'null'\<close>
  pushed, a string type becomes a two-element array, a falsy type becomes \<open>'null'\<close>.
\<close>

definition foldNullable :: "nat \<Rightarrow> heap \<Rightarrow> heap" where
  "foldNullable j h =
     (case getProp h j ''type'' of
        VRef t \<Rightarrow>
          (case cell h t of
             Arr xs \<Rightarrow> if VStr ''null'' \<in> set xs then h else h[t := Arr (xs @ [VStr ''null''])]
           | Obj es \<Rightarrow> h)
      | VStr s \<Rightarrow>
          setProp j ''type'' (VRef (length h)) (h @ [Arr [VStr s, VStr ''null'']])
      | v \<Rightarrow> if \<not> truthy v then setProp j ''type'' (VStr ''null'') h else h)"

text \<open>
  The straight-line part of the \<open>try\<close> block: the shallow copy \<open>{ ...schema }\<close> at
  a fresh address, \<open>integer\<close> to \<open>number\<close>, the seven deletions, and \<open>nullable\<close>.
\<close>

definition removedKeys :: "string list" where
  "removedKeys = [''nullable'', ''example'', ''xml'', ''externalDocs'', ''deprecated'',
     ''readOnly'', ''writeOnly'']"

definition prepareCopy :: "nat \<Rightarrow> mstate \<Rightarrow> nat \<times> mstate" where
  "prepareCopy a st =
     (let h = heap st;
          j = length h;
          h1 = h @ [Obj (entries_of (cell h a))];
          h2 = (if getProp h1 a ''type'' = VStr ''integer''
                then setProp j ''type'' (VStr ''number'') h1 else h1);
          h3 = fold (delProp j) removedKeys h2;
          h4 = (if truthy (getProp h3 a ''nullable'') then foldNullable j h3 else h3)
      in (j, st\<lparr>heap := h4\<rparr>))"

text \<open>
  \<open>mapOpenApiSchemaToJsonSchema(schema, seen)\<close> with the loop over the properties.
  The test \<open>'$ref' in schema\<close> comes first and throws a \<open>TypeError\<close> when \<open>schema\<close> is
  not an object, so the boolean test after it is never reached.  The first argument is
  fuel: each nested call spends one unit.
\<close>

fun mapSchema :: "nat \<Rightarrow> val \<Rightarrow> mstate \<Rightarrow> val result"
  and mapProps :: "nat \<Rightarrow> nat \<Rightarrow> (string \<times> val) list \<Rightarrow> mstate \<Rightarrow> unit result" where
  "mapSchema 0 schema st = None"
| "mapSchema (Suc n) schema st =
     (case schema of
        VRef a \<Rightarrow>
          if hasProp (heap st) a ''$ref'' then
            Some (genericObject (warn (UnresolvedRef (getProp (heap st) a ''$ref'')) st))
          else if a \<in> seen st then
            Some (genericObject (warn (CycleDetected (getProp (heap st) a ''title'')) st))
          else
            finallyR
              (let (j, st1) = prepareCopy a (st\<lparr>seen := insert a (seen st)\<rparr>) in
               bindR
                 (if getProp (heap st1) j ''type'' = VStr ''object''
                     \<and> truthy (getProp (heap st1) j ''properties'')
                  then
                    (let (m, st2) = allocS (Obj []) st1 in
                     bindR
                       (mapProps n m
                          (object_entries (heap st2) (getProp (heap st2) j ''properties'')) st2)
                       (\<lambda>_ st3. Some (Inr (), setPropS j ''properties'' (VRef m) st3)))
                  else Some (Inr (), st1))
                 (\<lambda>_ st4.
                    bindR
                      (case getProp (heap st4) j ''items'' of
                         VRef i \<Rightarrow>
                           if getProp (heap st4) j ''type'' = VStr ''array'' then
                             bindR (mapSchema n (VRef i) st4)
                               (\<lambda>r st5. Some (Inr (), setPropS j ''items'' r st5))
                           else Some (Inr (), st4)
                       | _ \<Rightarrow> Some (Inr (), st4))
                      (\<lambda>_ st6. Some (Inr (VRef j), st6))))
              (\<lambda>st7. st7\<lparr>seen := seen st7 - {a}\<rparr>)
      | _ \<Rightarrow> Some (Inl TypeError, st))"
| "mapProps n m [] st = Some (Inr (), st)"
| "mapProps n m ((key, propSchema) # rest) st =
     (case propSchema of
        VRef p \<Rightarrow>
          bindR (mapSchema n (VRef p) st)
            (\<lambda>r st'. mapProps n m rest (setPropS m key r st'))
      | VBool b \<Rightarrow> mapProps n m rest (setPropS m key (VBool b) st)
      | _ \<Rightarrow> mapProps n m rest st)"

text \<open>
  The entry point with its default \<open>seen = new WeakSet()\<close>.  A traversal never nests
  deeper than the number of cells of the heap it starts from, which bounds the fuel.
\<close>

definition mapOpenApiSchemaToJsonSchema :: "val \<Rightarrow> mstate \<Rightarrow> val result" where
  "mapOpenApiSchemaToJsonSchema schema st =
     mapSchema (Suc (length (heap st))) schema (st\<lparr>seen := {}\<rparr>)"

section \<open>Parameters and request body (generateInputSchemaAndDetails)\<close>

text \<open>
  The object literal \<open>{ type: 'object', properties, ...(required.length > 0 && { required }) }\<close>.
  \<open>properties\<close> is a plain object used as a dictionary from parameter names to
  references to the mapped schemas in the heap; it is modelled as a finite map, so nothing
  is said about the order in which its keys are enumerated.
\<close>

record inputSchema =
  is_type :: string
  is_properties :: "string \<rightharpoonup> val"
  is_required :: "string list option"

text \<open>
  \<open>properties[name] = schema\<close> on that object, which starts as \<open>{}\<close>: the name
  \<open>__proto__\<close> reaches the accessor of \<open>Object.prototype\<close> and leaves the own
  properties as they are.
\<close>

definition assign :: "string \<Rightarrow> val \<Rightarrow> (string \<rightharpoonup> val) \<Rightarrow> (string \<rightharpoonup> val)" where
  "assign k v properties = (if k = ''__proto__'' then properties else properties(k \<mapsto> v))"

record schemaDetails =
  sd_inputSchema :: inputSchema
  sd_parameters :: "parameter list"
  sd_requestBodyContentType :: "string option"

text \<open>
  \<open>parameterMap\<close> is a \<open>Map\<close>: \<open>set\<close> on a key already present replaces the
  value where it stands, a new key goes last.  Entries with a falsy name are skipped.
\<close>

definition setParam :: "parameter \<Rightarrow> (string \<times> parameter) list \<Rightarrow> (string \<times> parameter) list" where
  "setParam param parameterMap =
     (case p_name param of
        Some nm \<Rightarrow> if nm \<noteq> [] then AList.update nm param parameterMap else parameterMap
      | None \<Rightarrow> parameterMap)"

definition mergeParameters :: "parameter list \<Rightarrow> parameter list \<Rightarrow> parameter list" where
  "mergeParameters pathParameters operationParameters =
     map snd (fold setParam operationParameters (fold setParam pathParameters []))"

text \<open>\<open>x.description = d || x.description || ...\<close> on a mapped schema that is an object.\<close>

definition describe :: "val \<Rightarrow> (val \<Rightarrow> val) \<Rightarrow> mstate \<Rightarrow> mstate" where
  "describe schema f st =
     (case schema of
        VRef r \<Rightarrow> setPropS r ''description'' (f (getProp (heap st) r ''description'')) st
      | _ \<Rightarrow> st)"

text \<open>The loop \<open>allParameters.forEach\<close> that fills \<open>properties\<close> and \<open>required\<close>.\<close>

fun paramSchemas ::
  "parameter list \<Rightarrow> (string \<rightharpoonup> val) \<times> string list \<Rightarrow> mstate
     \<Rightarrow> ((string \<rightharpoonup> val) \<times> string list) result" where
  "paramSchemas [] acc st = Some (Inr acc, st)"
| "paramSchemas (param # rest) acc st =
     (case p_name param of
        Some nm \<Rightarrow>
          if nm \<noteq> [] \<and> truthy (p_schema param) then
            bindR (mapOpenApiSchemaToJsonSchema (p_schema param) st)
              (\<lambda>paramSchema st1.
                 paramSchemas rest
                   (assign nm paramSchema (fst acc),
                    if p_required param then snd acc @ [nm] else snd acc)
                   (describe paramSchema (js_or (opt_str (p_description param))) st1))
          else paramSchemas rest acc st
      | None \<Rightarrow> paramSchemas rest acc st)"

text \<open>The request body: the JSON media type if it has a schema, else the first media type.\<close>

definition bodySchema ::
  "requestBody option \<Rightarrow> (string \<rightharpoonup> val) \<times> string list \<Rightarrow> mstate
     \<Rightarrow> ((string \<rightharpoonup> val) \<times> string list \<times> string option) result" where
  "bodySchema rbo acc st =
     (case rbo of
        None \<Rightarrow> Some (Inr (fst acc, snd acc, None), st)
      | Some opRequestBody \<Rightarrow>
         (let content = (case rb_content opRequestBody of None \<Rightarrow> [] | Some c \<Rightarrow> c);
              required' = (if rb_required opRequestBody then snd acc @ [''requestBody'']
                           else snd acc)
          in
          case map_of content ''application/json'' of
            Some jsonContent \<Rightarrow>
              if truthy (mt_schema jsonContent) then
                bindR (mapOpenApiSchemaToJsonSchema (mt_schema jsonContent) st)
                  (\<lambda>bodySchema st1.
                     Some (Inr (assign ''requestBody'' bodySchema (fst acc), required',
                                Some ''application/json''),
                           describe bodySchema
                             (\<lambda>d. js_or (opt_str (rb_description opRequestBody))
                                    (js_or d (VStr ''The JSON request body.''))) st1))
              else
                (case content of
                   [] \<Rightarrow> Some (Inr (fst acc, snd acc, None), st)
                 | (contentType, _) # _ \<Rightarrow>
                    (let (b, st1) = allocS (Obj [(''type'', VStr ''string''),
                            (''description'',
                             js_or (opt_str (rb_description opRequestBody))
                               (VStr (''Request body (content type: '' @ contentType @ '')'')))]) st
                     in Some (Inr (assign ''requestBody'' (VRef b) (fst acc), required',
                                   Some contentType), st1)))
          | None \<Rightarrow>
              (case content of
                 [] \<Rightarrow> Some (Inr (fst acc, snd acc, None), st)
               | (contentType, _) # _ \<Rightarrow>
                  (let (b, st1) = allocS (Obj [(''type'', VStr ''string''),
                          (''description'',
                           js_or (opt_str (rb_description opRequestBody))
                             (VStr (''Request body (content type: '' @ contentType @ '')'')))]) st
                   in Some (Inr (assign ''requestBody'' (VRef b) (fst acc), required',
                                 Some contentType), st1)))))"

definition generateInputSchemaAndDetails ::
  "operation \<Rightarrow> pathItem \<Rightarrow> mstate \<Rightarrow> schemaDetails result" where
  "generateInputSchemaAndDetails operation pathItem st =
     (let pathParameters = (case pi_parameters pathItem of None \<Rightarrow> [] | Some ps \<Rightarrow> ps);
          operationParameters = (case op_parameters operation of None \<Rightarrow> [] | Some ps \<Rightarrow> ps);
          allParameters = mergeParameters pathParameters operationParameters
      in
      bindR (paramSchemas allParameters (Map.empty, []) st)
        (\<lambda>acc st1.
           bindR (bodySchema (op_requestBody operation) acc st1)
             (\<lambda>(properties, required, requestBodyContentType) st2.
                Some (Inr \<lparr>sd_inputSchema =
                             \<lparr>is_type = ''object'', is_properties = properties,
                              is_required = (if required \<noteq> [] then Some required else None)\<rparr>,
                           sd_parameters = allParameters,
                           sd_requestBodyContentType = requestBodyContentType\<rparr>, st2))))"

section \<open>The tool extractor (extractToolsFromApi)\<close>

record tool =
  t_name :: string
  t_description :: string
  t_inputSchema :: inputSchema
  t_method :: httpMethod
  t_pathTemplate :: string
  t_parameters :: "parameter list"
  t_executionParameters :: "(string option \<times> string option) list"
  t_requestBodyContentType :: "string option"
  t_securityRequirements :: "secreq list"
  t_operationId :: string

text \<open>
  \<open>baseName.replace(/\./g, '_').replace(/[^a-z0-9_-]/gi, '_')\<close>: a character is kept
  when it is an ASCII letter, a digit, \<open>_\<close> or \<open>-\<close>.
\<close>

definition allowed_char :: "char \<Rightarrow> bool" where
  "allowed_char c =
     (let n = (of_char c :: nat) in
      (97 \<le> n \<and> n \<le> 122) \<or> (65 \<le> n \<and> n \<le> 90) \<or> (48 \<le> n \<and> n \<le> 57)
        \<or> c = CHR ''_'' \<or> c = CHR ''-'')"

definition sanitize :: "string \<Rightarrow> string" where
  "sanitize baseName =
     map (\<lambda>c. if allowed_char c then c else CHR ''_'')
       (map (\<lambda>c. if c = CHR ''.'' then CHR ''_'' else c) baseName)"

definition candidate :: "string \<Rightarrow> nat \<Rightarrow> string" where
  "candidate baseName counter = baseName @ ''_'' @ dec counter"

lemma of_char_digit: "d < 10 \<Longrightarrow> (of_char (digit d) :: nat) = 48 + d"
  by (simp add: digit_def)

lemma digit_inj: "d < 10 \<Longrightarrow> e < 10 \<Longrightarrow> digit d = digit e \<Longrightarrow> d = e"
proof -
  assume d: "d < 10" and e: "e < 10" and eq: "digit d = digit e"
  from eq have "(of_char (digit d) :: nat) = of_char (digit e)" by (rule arg_cong)
  then have "48 + d = 48 + e" by (simp only: of_char_digit[OF d] of_char_digit[OF e])
  then show "d = e" by simp
qed

lemma dec_nonempty: "dec n \<noteq> []"
  by (subst dec.simps) simp

lemma dec_inj: "dec m = dec n \<Longrightarrow> m = n"
proof (induction m arbitrary: n rule: dec.induct)
  case (1 m)
  show ?case
  proof (cases "m < 10")
    case True
    show ?thesis
    proof (cases "n < 10")
      case True
      with \<open>m < 10\<close> "1.prems" show ?thesis
        by (simp add: dec.simps[of m] dec.simps[of n] digit_inj)
    next
      case False
      with \<open>m < 10\<close> "1.prems" show ?thesis
        by (simp add: dec.simps[of m] dec.simps[of n] dec_nonempty[symmetric])
    qed
  next
    case False
    show ?thesis
    proof (cases "n < 10")
      case True
      with False "1.prems" show ?thesis
        by (simp add: dec.simps[of m] dec.simps[of n] dec_nonempty)
    next
      case nb: False
      from False nb "1.prems" have e: "dec (m div 10) = dec (n div 10)"
        and d: "digit (m mod 10) = digit (n mod 10)"
        by (simp_all add: dec.simps[of m] dec.simps[of n])
      from "1.IH"[OF False e] have "m div 10 = n div 10" .
      moreover from d have "m mod 10 = n mod 10" by (simp add: digit_inj)
      ultimately show ?thesis by (metis div_mult_mod_eq)
    qed
  qed
qed

lemma candidate_inj: "candidate b k = candidate b l \<Longrightarrow> k = l"
  by (simp add: candidate_def dec_inj)

lemma finite_candidates: "finite {k. candidate b k \<in> set used}"
proof -
  have "inj (candidate b)" by (auto simp: inj_def dest: candidate_inj)
  then have "finite (candidate b -` set used)" by (intro finite_vimageI) simp_all
  then show ?thesis by (simp add: vimage_def)
qed

text \<open>
  The loop \<open>while (usedNames.has(finalToolName)) finalToolName = `${baseName}_${counter++}`\<close>.
  It terminates because the candidates are pairwise different and \<open>usedNames\<close> is finite.
\<close>

function findName :: "string list \<Rightarrow> string \<Rightarrow> string \<Rightarrow> nat \<Rightarrow> string" where
  "findName usedNames baseName finalToolName counter =
     (if finalToolName \<in> set usedNames
      then findName usedNames baseName (candidate baseName counter) (Suc counter)
      else finalToolName)"
  by pat_completeness auto
termination
proof (relation "measure (\<lambda>(used, b, nm, c).
         card {k. c \<le> k \<and> candidate b k \<in> set used} + (if nm \<in> set used then 1 else 0))")
  show "wf (measure (\<lambda>(used, b, nm, c).
         card {k. c \<le> k \<and> candidate b k \<in> set used} + (if nm \<in> set used then 1 else 0)))"
    by simp
next
  fix usedNames :: "string list" and baseName finalToolName :: string and counter :: nat
  assume "finalToolName \<in> set usedNames"
  let ?S = "{k. counter \<le> k \<and> candidate baseName k \<in> set usedNames}"
  let ?T = "{k. Suc counter \<le> k \<and> candidate baseName k \<in> set usedNames}"
  have fin: "finite ?S"
    by (rule finite_subset[OF _ finite_candidates[of baseName usedNames]]) auto
  have T: "?T = ?S - {counter}" by auto
  have "card ?T + (if candidate baseName counter \<in> set usedNames then 1 else 0) = card ?S"
  proof (cases "candidate baseName counter \<in> set usedNames")
    case True
    then have "counter \<in> ?S" by simp
    with fin have "card (?S - {counter}) + 1 = card ?S"
      by (metis One_nat_def Suc_eq_plus1 card_Suc_Diff1)
    with True T show ?thesis by simp
  next
    case False
    then have "?T = ?S" by (auto simp: le_less Suc_le_eq)
    with False show ?thesis by simp
  qed
  with \<open>finalToolName \<in> set usedNames\<close>
  show "((usedNames, baseName, candidate baseName counter, Suc counter),
         (usedNames, baseName, finalToolName, counter))
        \<in> measure (\<lambda>(used, b, nm, c).
         card {k. c \<le> k \<and> candidate b k \<in> set used} + (if nm \<in> set used then 1 else 0))"
    by simp
qed

declare findName.simps [simp del]

text \<open>\<open>a || b\<close> for an optional string \<open>a\<close>.\<close>

definition or_str :: "string option \<Rightarrow> string \<Rightarrow> string" where
  "or_str a b = (case a of Some s \<Rightarrow> if s \<noteq> [] then s else b | None \<Rightarrow> b)"

text \<open>
  The extractor imports two collaborators: the inclusion filter, which returns a
  decision or throws (with the warnings printed so far), and \<open>generateOperationId\<close> of
  \<open>utils/code-gen.ts\<close>, which is not part of the sources at hand and stays a parameter.
\<close>

type_synonym inclusionFilter =
  "document \<Rightarrow> pathItem \<Rightarrow> operation \<Rightarrow> bool \<Rightarrow> (error + bool) \<times> diag list"

definition helpersFilter :: inclusionFilter where
  "helpersFilter api pathItem operation defaultInclude =
     (let (b, w) = shouldIncludeOperationForMcp api pathItem operation defaultInclude
      in (Inr b, w))"

text \<open>
  The \<open>try\<close>/\<open>catch\<close> around the filter: the result says whether the loop body goes on
  to build a tool (\<open>True\<close>) or hits \<open>continue\<close>.
\<close>

definition applyFilter ::
  "inclusionFilter \<Rightarrow> document \<Rightarrow> bool \<Rightarrow> string \<Rightarrow> pathItem \<Rightarrow> httpMethod \<Rightarrow> operation
     \<Rightarrow> mstate \<Rightarrow> bool \<times> mstate" where
  "applyFilter flt api defaultInclude path pathItem method operation st =
     (case flt api pathItem operation defaultInclude of
        (Inr included, w) \<Rightarrow> (included, st\<lparr>log := log st @ w\<rparr>)
      | (Inl e, w) \<Rightarrow>
          (let loc = or_str (op_operationId operation) (method_str method @ '' '' @ path);
               extVal = nullish (op_x_mcp operation)
                          (nullish (pi_x_mcp pathItem) (api_x_mcp api))
           in (defaultInclude, warn (XmcpEvalError loc extVal e) (st\<lparr>log := log st @ w\<rparr>))))"

definition globalSecurity :: "document \<Rightarrow> secreq list" where
  "globalSecurity api = (case api_security api of None \<Rightarrow> [] | Some s \<Rightarrow> s)"

text \<open>
  \<open>operation.security === null ? globalSecurity : operation.security || globalSecurity\<close>
\<close>

definition securityRequirements :: "document \<Rightarrow> operation \<Rightarrow> secreq list" where
  "securityRequirements api operation =
     (case op_security operation of
        SecNull \<Rightarrow> globalSecurity api
      | SecArray reqs \<Rightarrow> reqs
      | SecAbsent \<Rightarrow> globalSecurity api)"

text \<open>The body of the inner loop for one declared operation.\<close>

definition processOperation ::
  "inclusionFilter \<Rightarrow> (httpMethod \<Rightarrow> string \<Rightarrow> string) \<Rightarrow> document \<Rightarrow> bool \<Rightarrow> string
     \<Rightarrow> pathItem \<Rightarrow> httpMethod \<Rightarrow> operation \<Rightarrow> tool list \<times> string list \<Rightarrow> mstate
     \<Rightarrow> (tool list \<times> string list) result" where
  "processOperation flt generateOperationId api defaultInclude path pathItem method operation
       acc st =
     (let (included, st1) = applyFilter flt api defaultInclude path pathItem method operation st
      in
      if \<not> included then Some (Inr acc, st1)
      else
        (let baseName0 = or_str (op_operationId operation) (generateOperationId method path) in
         if baseName0 = [] then Some (Inr acc, st1)
         else
           (let baseName = sanitize baseName0;
                finalToolName = findName (snd acc) baseName baseName 1;
                usedNames' = snd acc @ [finalToolName];
                description =
                  or_str (op_description operation)
                    (or_str (op_summary operation)
                       (''Executes '' @ method_upper method @ '' '' @ path))
            in
            bindR (generateInputSchemaAndDetails operation pathItem st1)
              (\<lambda>sd st2.
                 Some (Inr (fst acc @
                              [\<lparr>t_name = finalToolName,
                                t_description = description,
                                t_inputSchema = sd_inputSchema sd,
                                t_method = method,
                                t_pathTemplate = path,
                                t_parameters = sd_parameters sd,
                                t_executionParameters =
                                  map (\<lambda>p. (p_name p, p_in p)) (sd_parameters sd),
                                t_requestBodyContentType = sd_requestBodyContentType sd,
                                t_securityRequirements = securityRequirements api operation,
                                t_operationId = baseName\<rparr>],
                            usedNames'), st2)))))"

fun methodLoop ::
  "inclusionFilter \<Rightarrow> (httpMethod \<Rightarrow> string \<Rightarrow> string) \<Rightarrow> document \<Rightarrow> bool \<Rightarrow> string
     \<Rightarrow> pathItem \<Rightarrow> httpMethod list \<Rightarrow> tool list \<times> string list \<Rightarrow> mstate
     \<Rightarrow> (tool list \<times> string list) result" where
  "methodLoop flt gen api d path pathItem [] acc st = Some (Inr acc, st)"
| "methodLoop flt gen api d path pathItem (method # ms) acc st =
     (case pi_operations pathItem method of
        None \<Rightarrow> methodLoop flt gen api d path pathItem ms acc st
      | Some operation \<Rightarrow>
          bindR (processOperation flt gen api d path pathItem method operation acc st)
            (\<lambda>acc' st'. methodLoop flt gen api d path pathItem ms acc' st'))"

fun pathLoop ::
  "inclusionFilter \<Rightarrow> (httpMethod \<Rightarrow> string \<Rightarrow> string) \<Rightarrow> document \<Rightarrow> bool
     \<Rightarrow> (string \<times> pathItem option) list \<Rightarrow> tool list \<times> string list \<Rightarrow> mstate
     \<Rightarrow> (tool list \<times> string list) result" where
  "pathLoop flt gen api d [] acc st = Some (Inr acc, st)"
| "pathLoop flt gen api d ((path, None) # rest) acc st = pathLoop flt gen api d rest acc st"
| "pathLoop flt gen api d ((path, Some pathItem) # rest) acc st =
     bindR (methodLoop flt gen api d path pathItem HttpMethods acc st)
       (\<lambda>acc' st'. pathLoop flt gen api d rest acc' st')"

definition extractToolsWith ::
  "inclusionFilter \<Rightarrow> (httpMethod \<Rightarrow> string \<Rightarrow> string) \<Rightarrow> document \<Rightarrow> bool \<Rightarrow> mstate
     \<Rightarrow> (tool list) result" where
  "extractToolsWith flt gen api defaultInclude st =
     (case api_paths api of
        None \<Rightarrow> Some (Inr [], st)
      | Some paths \<Rightarrow>
          bindR (pathLoop flt gen api defaultInclude paths ([], []) st)
            (\<lambda>acc st'. Some (Inr (fst acc), st')))"

definition extractToolsFromApi ::
  "(httpMethod \<Rightarrow> string \<Rightarrow> string) \<Rightarrow> document \<Rightarrow> bool \<Rightarrow> mstate \<Rightarrow> (tool list) result" where
  "extractToolsFromApi gen api defaultInclude st =
     extractToolsWith helpersFilter gen api defaultInclude st"

section \<open>The inclusion filter: precedence\<close>

lemma lower_words:
  "toLowerCase ''true'' = ''true''" "toLowerCase ''1'' = ''1''"
  "toLowerCase ''yes'' = ''yes''" "toLowerCase ''on'' = ''on''"
  "toLowerCase ''false'' = ''false''" "toLowerCase ''0'' = ''0''"
  "toLowerCase ''no'' = ''no''" "toLowerCase ''off'' = ''off''"
  by (simp_all add: toLowerCase_def lower_char_def)

lemma normalizeBoolean_trimmed: "normalizeBoolean v = trimmed_reading v"
  by (cases v) (simp_all add: normalizeBoolean_def trimmed_reading_def spec_reading_def
      true_words_def false_words_def ci_equal_def lower_words Let_def)

text \<open>
  C1, as the code has it.  A value is read as a boolean exactly when it is a boolean, or
  a string that, once its surrounding white space is trimmed, equals one of the eight
  words up to case; the decision is the reading of the operation's value if it has one,
  else of the path item's, else of the root's, else the default.
\<close>

theorem inclusion_precedence:
  "normalizeBoolean v = trimmed_reading v \<and>
   fst (shouldIncludeOperationForMcp api pathItem operation defaultInclude) =
     trimmed_precedence (op_x_mcp operation) (pi_x_mcp pathItem) (api_x_mcp api) defaultInclude"
  by (simp add: shouldIncludeOperationForMcp_def trimmed_precedence_def
      normalizeBoolean_trimmed Let_def split: option.splits)

text \<open>
  C1 as stated fails: the operation's value \<open>" false"\<close> is not equal to any of the words
  when only case is ignored, so the stated rule falls through to the path item's \<open>true\<close>
  and includes the operation; the code trims the string first and excludes it.
\<close>

theorem inclusion_untrimmed_counterexample:
  "fst (shouldIncludeOperationForMcp
         \<lparr>api_x_mcp = VUndefined, api_security = None, api_paths = None\<rparr>
         \<lparr>pi_x_mcp = VBool True, pi_parameters = None, pi_operations = Map.empty\<rparr>
         \<lparr>op_operationId = None, op_description = None, op_summary = None,
          op_x_mcp = VStr '' false'', op_parameters = None, op_requestBody = None,
          op_security = SecAbsent\<rparr> True)
   \<noteq> spec_precedence (VStr '' false'') (VBool True) VUndefined True"
  by (simp add: shouldIncludeOperationForMcp_def spec_precedence_def spec_reading_def
      normalizeBoolean_def true_words_def false_words_def ci_equal_def toLowerCase_def
      lower_char_def trim_def is_ws_def Let_def)

section \<open>The schema mapper: shape of a run\<close>

text \<open>
  A run of the mapper only ever appends cells, writes to the cells it has allocated
  itself, and pushes onto arrays: every plain object that exists when it starts is left
  as it is, and the \<open>seen\<close> set is back to its starting value when it returns.
\<close>

fun isArr :: "hobj \<Rightarrow> bool" where
  "isArr (Arr xs) = True"
| "isArr (Obj es) = False"

definition grows :: "nat set \<Rightarrow> heap \<Rightarrow> heap \<Rightarrow> bool" where
  "grows X h h' =
     (length h \<le> length h' \<and>
      (\<forall>a<length h.
         case h ! a of
           Obj es \<Rightarrow> \<not> isArr (h' ! a) \<and> (a \<notin> X \<longrightarrow> h' ! a = Obj es)
         | Arr xs \<Rightarrow> (\<exists>ys. h' ! a = Arr (xs @ ys) \<and> (\<forall>y\<in>set ys. \<forall>b. y \<noteq> VRef b))))"

lemma grows_length: "grows X h h' \<Longrightarrow> length h \<le> length h'"
  by (simp add: grows_def)

lemma growsD:
  "grows X h h' \<Longrightarrow> a < length h \<Longrightarrow>
     (case h ! a of
        Obj es \<Rightarrow> \<not> isArr (h' ! a) \<and> (a \<notin> X \<longrightarrow> h' ! a = Obj es)
      | Arr xs \<Rightarrow> (\<exists>ys. h' ! a = Arr (xs @ ys) \<and> (\<forall>y\<in>set ys. \<forall>b. y \<noteq> VRef b)))"
  by (simp add: grows_def)

lemma grows_isArr: "grows X h h' \<Longrightarrow> a < length h \<Longrightarrow> isArr (h' ! a) = isArr (h ! a)"
  using growsD[of X h h' a] by (cases "h ! a") auto

lemma grows_same:
  "grows X h h' \<Longrightarrow> a < length h \<Longrightarrow> a \<notin> X \<Longrightarrow> \<not> isArr (h ! a) \<Longrightarrow> h' ! a = h ! a"
  using growsD[of X h h' a] by (cases "h ! a") auto

lemma grows_arr:
  "grows X h h' \<Longrightarrow> a < length h \<Longrightarrow> h ! a = Arr xs
     \<Longrightarrow> \<exists>ys. h' ! a = Arr (xs @ ys) \<and> (\<forall>y\<in>set ys. \<forall>b. y \<noteq> VRef b)"
  using growsD[of X h h' a] by simp

lemma growsI:
  assumes "length h \<le> length h'"
    and "\<And>a es. a < length h \<Longrightarrow> h ! a = Obj es
           \<Longrightarrow> \<not> isArr (h' ! a) \<and> (a \<notin> X \<longrightarrow> h' ! a = Obj es)"
    and "\<And>a xs. a < length h \<Longrightarrow> h ! a = Arr xs
           \<Longrightarrow> \<exists>ys. h' ! a = Arr (xs @ ys) \<and> (\<forall>y\<in>set ys. \<forall>b. y \<noteq> VRef b)"
  shows "grows X h h'"
  unfolding grows_def using assms by (auto split: hobj.splits)

lemma grows_refl [simp]: "grows X h h"
  by (rule growsI) auto

lemma grows_trans:
  assumes g1: "grows X h1 h2" and g2: "grows X h2 h3"
  shows "grows X h1 h3"
proof (rule growsI)
  from g1 g2 show "length h1 \<le> length h3" by (simp add: grows_def)
next
  fix a es assume a: "a < length h1" and c: "h1 ! a = Obj es"
  from a g1 have a2: "a < length h2" by (simp add: grows_def)
  from c have n1: "\<not> isArr (h1 ! a)" by simp
  from grows_isArr[OF g1 a] n1 have n2: "\<not> isArr (h2 ! a)" by simp
  from grows_isArr[OF g2 a2] n2 have n3: "\<not> isArr (h3 ! a)" by simp
  have "h3 ! a = Obj es" if "a \<notin> X"
    using grows_same[OF g1 a that n1] grows_same[OF g2 a2 that n2] c by simp
  with n3 show "\<not> isArr (h3 ! a) \<and> (a \<notin> X \<longrightarrow> h3 ! a = Obj es)" by simp
next
  fix a xs assume a: "a < length h1" and c: "h1 ! a = Arr xs"
  from a g1 have a2: "a < length h2" by (simp add: grows_def)
  from grows_arr[OF g1 a c] obtain ys where
    ys: "h2 ! a = Arr (xs @ ys)" "\<forall>y\<in>set ys. \<forall>b. y \<noteq> VRef b" by blast
  from grows_arr[OF g2 a2 ys(1)] obtain zs where
    zs: "h3 ! a = Arr ((xs @ ys) @ zs)" "\<forall>y\<in>set zs. \<forall>b. y \<noteq> VRef b" by blast
  from ys(2) zs show "\<exists>ys. h3 ! a = Arr (xs @ ys) \<and> (\<forall>y\<in>set ys. \<forall>b. y \<noteq> VRef b)"
    by (intro exI[of _ "ys @ zs"]) auto
qed

lemma grows_mono:
  assumes g: "grows X h h'" and sub: "X \<inter> {..<length h} \<subseteq> Y"
  shows "grows Y h h'"
proof (rule growsI)
  show "length h \<le> length h'" by (rule grows_length[OF g])
next
  fix a es assume a: "a < length h" and c: "h ! a = Obj es"
  from grows_isArr[OF g a] c have "\<not> isArr (h' ! a)" by simp
  moreover have "h' ! a = Obj es" if "a \<notin> Y"
  proof -
    from that a sub have "a \<notin> X" by auto
    from grows_same[OF g a this] c show ?thesis by simp
  qed
  ultimately show "\<not> isArr (h' ! a) \<and> (a \<notin> Y \<longrightarrow> h' ! a = Obj es)" by simp
next
  fix a xs assume "a < length h" "h ! a = Arr xs"
  then show "\<exists>ys. h' ! a = Arr (xs @ ys) \<and> (\<forall>y\<in>set ys. \<forall>b. y \<noteq> VRef b)"
    by (rule grows_arr[OF g])
qed

lemma grows_append [simp]: "grows X h (h @ cs)"
  by (rule growsI) (auto simp: nth_append)

lemma grows_update_obj:
  assumes "a \<in> X" "\<not> isArr c" "\<not> isArr (h ! a)"
  shows "grows X h (h[a := c])"
proof (rule growsI)
  show "length h \<le> length (h[a := c])" by simp
next
  fix b es assume "b < length h" "h ! b = Obj es"
  with assms show "\<not> isArr (h[a := c] ! b) \<and> (b \<notin> X \<longrightarrow> h[a := c] ! b = Obj es)"
    by (cases "b = a") auto
next
  fix b xs assume "b < length h" "h ! b = Arr xs"
  with assms have "h[a := c] ! b = Arr (xs @ [])" by (cases "b = a") auto
  then show "\<exists>ys. h[a := c] ! b = Arr (xs @ ys) \<and> (\<forall>y\<in>set ys. \<forall>b. y \<noteq> VRef b)"
    by (intro exI[of _ "[]"]) simp
qed

lemma grows_update_arr:
  assumes "h ! a = Arr xs" "\<forall>b. y \<noteq> VRef b"
  shows "grows X h (h[a := Arr (xs @ [y])])"
proof (rule growsI)
  show "length h \<le> length (h[a := Arr (xs @ [y])])" by simp
next
  fix b es assume "b < length h" "h ! b = Obj es"
  with assms show "\<not> isArr (h[a := Arr (xs @ [y])] ! b)
      \<and> (b \<notin> X \<longrightarrow> h[a := Arr (xs @ [y])] ! b = Obj es)"
    by (cases "b = a") auto
next
  fix b zs assume b: "b < length h" "h ! b = Arr zs"
  show "\<exists>ys. h[a := Arr (xs @ [y])] ! b = Arr (zs @ ys) \<and> (\<forall>y\<in>set ys. \<forall>b. y \<noteq> VRef b)"
  proof (cases "b = a")
    case True
    with b assms show ?thesis by (intro exI[of _ "[y]"]) simp
  next
    case False
    with b show ?thesis by (intro exI[of _ "[]"]) simp
  qed
qed

lemma grows_setProp [simp]: "a \<in> X \<Longrightarrow> grows X h (setProp a k v h)"
  by (auto simp: setProp_def cell_def grows_update_obj list_update_beyond
           split: hobj.splits if_splits)

lemma grows_delProp [simp]: "a \<in> X \<Longrightarrow> grows X h (delProp a k h)"
  by (auto simp: delProp_def cell_def grows_update_obj list_update_beyond split: hobj.splits)

lemma grows_fold_delProp [simp]: "a \<in> X \<Longrightarrow> grows X h (fold (delProp a) ks h)"
proof (induction ks arbitrary: h)
  case Nil show ?case by simp
next
  case (Cons k ks)
  have "grows X h (delProp a k h)" using Cons.prems by simp
  from grows_trans[OF this Cons.IH[OF Cons.prems]] show ?case by simp
qed

lemma grows_foldNullable [simp]: "j \<in> X \<Longrightarrow> grows X h (foldNullable j h)"
proof -
  assume j: "j \<in> X"
  have a: "grows X h (h @ [c])" for c by simp
  have b: "grows X h (setProp j k v (h @ [c]))" for k v c
    by (rule grows_trans[OF a grows_setProp[OF j]])
  show ?thesis
    by (auto simp: foldNullable_def cell_def grows_update_arr b j list_update_beyond
             split: val.splits hobj.splits if_splits)
qed

lemma prepareCopy_shape:
  assumes "prepareCopy a st = (j, st1)"
  shows "j = length (heap st)" "grows {} (heap st) (heap st1)" "j < length (heap st1)"
    "\<not> isArr (heap st1 ! j)" "seen st1 = seen st" "log st1 = log st"
proof -
  let ?h = "heap st"
  let ?h1 = "?h @ [Obj (entries_of (cell ?h a))]"
  let ?h2 = "(if getProp ?h1 a ''type'' = VStr ''integer''
                then setProp (length ?h) ''type'' (VStr ''number'') ?h1 else ?h1)"
  let ?h3 = "fold (delProp (length ?h)) removedKeys ?h2"
  let ?h4 = "(if truthy (getProp ?h3 a ''nullable'') then foldNullable (length ?h) ?h3 else ?h3)"
  from assms have "(length ?h, st\<lparr>heap := ?h4\<rparr>) = (j, st1)"
    unfolding prepareCopy_def Let_def .
  then have "length ?h = j \<and> st\<lparr>heap := ?h4\<rparr> = st1" by (rule iffD1[OF prod.inject])
  then have j: "j = length ?h" and st1: "st1 = st\<lparr>heap := ?h4\<rparr>" by blast+
  have g12: "grows {length ?h} ?h1 ?h2" by simp
  have g23: "grows {length ?h} ?h2 ?h3" by simp
  have g34: "grows {length ?h} ?h3 ?h4" by simp
  have g14: "grows {length ?h} ?h1 ?h4" using g12 g23 g34 grows_trans by blast
  have g01: "grows {length ?h} ?h ?h1" by simp
  have "grows {length ?h} ?h ?h4" by (rule grows_trans[OF g01 g14])
  then have g04: "grows {} ?h ?h4" by (rule grows_mono) simp
  show "j = length (heap st)" by (rule j)
  show "grows {} (heap st) (heap st1)" using g04 st1 by simp
  from g14 have "length ?h1 \<le> length ?h4" by (simp add: grows_def)
  then show "j < length (heap st1)" using j st1 by simp
  have "isArr (?h4 ! length ?h) = isArr (?h1 ! length ?h)"
    by (rule grows_isArr[OF g14]) simp
  then show "\<not> isArr (heap st1 ! j)" using j st1 by (simp add: nth_append)
  show "seen st1 = seen st" using st1 by simp
  show "log st1 = log st" using st1 by simp
qed

lemma bindR_Some:
  assumes "bindR c f = Some (r, st')"
  obtains (thrown) e where "c = Some (Inl e, st')" "r = Inl e"
        | (returned) x st1 where "c = Some (Inr x, st1)" "f x st1 = Some (r, st')"
proof (cases c)
  case None
  with assms show ?thesis by simp
next
  case (Some p)
  obtain y st1 where p: "p = (y, st1)" by (cases p)
  show ?thesis using assms Some p thrown returned by (cases y) auto
qed

lemma finallyR_Some:
  assumes "finallyR c g = Some (r, st')"
  obtains st1 where "c = Some (r, st1)" "st' = g st1"
  using assms by (cases c) auto

definition steps :: "nat set \<Rightarrow> mstate \<Rightarrow> mstate \<Rightarrow> bool" where
  "steps X st st' = (grows X (heap st) (heap st') \<and> seen st' = seen st)"

lemma steps_refl [simp]: "steps X st st"
  by (simp add: steps_def)

lemma steps_trans: "steps X st1 st2 \<Longrightarrow> steps X st2 st3 \<Longrightarrow> steps X st1 st3"
  by (auto simp: steps_def intro: grows_trans)

lemma steps_mono: "steps X st st' \<Longrightarrow> X \<inter> {..<length (heap st)} \<subseteq> Y \<Longrightarrow> steps Y st st'"
  by (auto simp: steps_def intro: grows_mono)

lemma steps_setPropS [simp]: "a \<in> X \<Longrightarrow> steps X st (setPropS a k v st)"
  by (simp add: steps_def setPropS_def)

lemma steps_alloc [simp]: "steps X st (st\<lparr>heap := heap st @ cs\<rparr>)"
  by (simp add: steps_def)

lemma allocS_eq: "allocS c st = (length (heap st), st\<lparr>heap := heap st @ [c]\<rparr>)"
  by (simp add: allocS_def)

lemma genericObject_eq:
  "genericObject st =
     (Inr (VRef (length (heap st))), st\<lparr>heap := heap st @ [Obj [(''type'', VStr ''object'')]]\<rparr>)"
  by (simp add: genericObject_def allocS_def)

definition schemaShape :: "nat \<Rightarrow> bool" where
  "schemaShape n = (\<forall>v st r st'. mapSchema n v st = Some (r, st') \<longrightarrow>
      steps {} st st' \<and>
      (case v of
         VRef a \<Rightarrow> (\<exists>j. r = Inr (VRef j) \<and> length (heap st) \<le> j \<and> j < length (heap st')
                       \<and> \<not> isArr (heap st' ! j))
       | _ \<Rightarrow> r = Inl TypeError \<and> st' = st))"

lemma schemaShapeD:
  assumes "schemaShape n" "mapSchema n (VRef a) st = Some (r, st')"
  obtains j where "r = Inr (VRef j)" "length (heap st) \<le> j" "j < length (heap st')"
    "\<not> isArr (heap st' ! j)" "steps {} st st'"
  using assms unfolding schemaShape_def by fastforce

lemma mapProps_shape:
  assumes S: "schemaShape n"
  shows "mapProps n m es st = Some (r, st') \<Longrightarrow> steps {m} st st' \<and> r = Inr ()"
proof (induction es arbitrary: st)
  case Nil
  then show ?case by simp
next
  case (Cons kv es)
  obtain key v where kv: "kv = (key, v)" by (cases kv)
  have sp: "steps {m} s (setPropS m key x s)" for s x by simp
  show ?case
  proof (cases v)
    case (VRef p)
    with Cons.prems kv have
      "bindR (mapSchema n (VRef p) st) (\<lambda>r st'. mapProps n m es (setPropS m key r st'))
         = Some (r, st')" by simp
    then show ?thesis
    proof (cases rule: bindR_Some)
      case (thrown e)
      from schemaShapeD[OF S thrown(1)] show ?thesis by blast
    next
      case (returned x st1)
      from schemaShapeD[OF S returned(1)] have "steps {} st st1" by blast
      then have s1: "steps {m} st st1" by (rule steps_mono) simp
      from Cons.IH[OF returned(2)] have "steps {m} (setPropS m key x st1) st'" "r = Inr ()"
        by simp_all
      with s1 sp show ?thesis using steps_trans by blast
    qed
  next
    case (VBool b)
    with Cons.prems kv have "mapProps n m es (setPropS m key (VBool b) st) = Some (r, st')"
      by simp
    from Cons.IH[OF this] sp show ?thesis using steps_trans by blast
  qed (use Cons kv in auto)
qed

text \<open>The two recursive parts of the \<open>try\<close> block, named for the proofs.\<close>

definition propertiesPart :: "nat \<Rightarrow> nat \<Rightarrow> mstate \<Rightarrow> unit result" where
  "propertiesPart n j st1 =
     (if getProp (heap st1) j ''type'' = VStr ''object''
         \<and> truthy (getProp (heap st1) j ''properties'')
      then
        (let (m, st2) = allocS (Obj []) st1 in
         bindR
           (mapProps n m
              (object_entries (heap st2) (getProp (heap st2) j ''properties'')) st2)
           (\<lambda>_ st3. Some (Inr (), setPropS j ''properties'' (VRef m) st3)))
      else Some (Inr (), st1))"

definition itemsPart :: "nat \<Rightarrow> nat \<Rightarrow> mstate \<Rightarrow> unit result" where
  "itemsPart n j st4 =
     (case getProp (heap st4) j ''items'' of
        VRef i \<Rightarrow>
          if getProp (heap st4) j ''type'' = VStr ''array'' then
            bindR (mapSchema n (VRef i) st4)
              (\<lambda>r st5. Some (Inr (), setPropS j ''items'' r st5))
          else Some (Inr (), st4)
      | _ \<Rightarrow> Some (Inr (), st4))"

lemma mapSchema_Suc_ref:
  "mapSchema (Suc n) (VRef a) st =
     (if hasProp (heap st) a ''$ref'' then
        Some (genericObject (warn (UnresolvedRef (getProp (heap st) a ''$ref'')) st))
      else if a \<in> seen st then
        Some (genericObject (warn (CycleDetected (getProp (heap st) a ''title'')) st))
      else
        finallyR
          (bindR (propertiesPart n (fst (prepareCopy a (st\<lparr>seen := insert a (seen st)\<rparr>)))
                    (snd (prepareCopy a (st\<lparr>seen := insert a (seen st)\<rparr>))))
             (\<lambda>_ st4.
                bindR (itemsPart n (fst (prepareCopy a (st\<lparr>seen := insert a (seen st)\<rparr>))) st4)
                  (\<lambda>_ st6. Some (Inr (VRef (fst (prepareCopy a (st\<lparr>seen := insert a (seen st)\<rparr>)))),
                                   st6))))
          (\<lambda>st7. st7\<lparr>seen := seen st7 - {a}\<rparr>))"
  by (simp add: propertiesPart_def itemsPart_def case_prod_beta)

lemma mapSchema_nonref:
  assumes "\<And>a. v \<noteq> VRef a"
  shows "mapSchema (Suc n) v st = Some (Inl TypeError, st)"
  using assms by (cases v) auto

lemma propertiesPart_shape:
  assumes S: "schemaShape n" and run: "propertiesPart n j st1 = Some (x, s)"
    and j: "j < length (heap st1)"
  shows "steps {j} st1 s \<and> x = Inr ()"
proof (cases "getProp (heap st1) j ''type'' = VStr ''object''
               \<and> truthy (getProp (heap st1) j ''properties'')")
  case True
  let ?m = "length (heap st1)"
  let ?st2 = "st1\<lparr>heap := heap st1 @ [Obj []]\<rparr>"
  from run True have
    "bindR (mapProps n ?m
              (object_entries (heap ?st2) (getProp (heap ?st2) j ''properties'')) ?st2)
       (\<lambda>_ st3. Some (Inr (), setPropS j ''properties'' (VRef ?m) st3))
     = Some (x, s)"
    by (simp add: propertiesPart_def allocS_eq)
  then show ?thesis
  proof (cases rule: bindR_Some)
    case (thrown e)
    from mapProps_shape[OF S thrown(1)] show ?thesis by simp
  next
    case (returned u st3)
    from mapProps_shape[OF S returned(1)] have "steps {?m} ?st2 st3" by simp
    moreover have "steps {?m} st1 ?st2" by simp
    ultimately have "steps {?m} st1 st3" by (rule steps_trans[rotated])
    then have "steps {j} st1 st3" by (rule steps_mono) simp
    moreover have "steps {j} st3 (setPropS j ''properties'' (VRef ?m) st3)" by simp
    ultimately show ?thesis using returned(2) steps_trans by auto
  qed
next
  case False
  with run show ?thesis by (auto simp: propertiesPart_def)
qed

lemma itemsPart_shape:
  assumes S: "schemaShape n" and run: "itemsPart n j st4 = Some (x, s)"
  shows "steps {j} st4 s \<and> x = Inr ()"
proof (cases "getProp (heap st4) j ''items''")
  case (VRef i)
  show ?thesis
  proof (cases "getProp (heap st4) j ''type'' = VStr ''array''")
    case True
    with run VRef have
      "bindR (mapSchema n (VRef i) st4)
         (\<lambda>r st5. Some (Inr (), setPropS j ''items'' r st5)) = Some (x, s)"
      by (simp add: itemsPart_def)
    then show ?thesis
    proof (cases rule: bindR_Some)
      case (thrown e)
      from schemaShapeD[OF S thrown(1)] show ?thesis by blast
    next
      case (returned y st5)
      from schemaShapeD[OF S returned(1)] have "steps {} st4 st5" by blast
      then have "steps {j} st4 st5" by (rule steps_mono) simp
      moreover have "steps {j} st5 (setPropS j ''items'' y st5)" by simp
      ultimately show ?thesis using returned(2) steps_trans by auto
    qed
  next
    case False
    with run VRef show ?thesis by (simp add: itemsPart_def)
  qed
qed (use run in \<open>auto simp: itemsPart_def\<close>)

lemma mapSchema_shape_step:
  assumes S: "schemaShape n"
  shows "schemaShape (Suc n)"
  unfolding schemaShape_def
proof (intro allI impI)
  fix v st r st'
  assume run: "mapSchema (Suc n) v st = Some (r, st')"
  show "steps {} st st' \<and>
      (case v of
         VRef a \<Rightarrow> (\<exists>j. r = Inr (VRef j) \<and> length (heap st) \<le> j \<and> j < length (heap st')
                       \<and> \<not> isArr (heap st' ! j))
       | _ \<Rightarrow> r = Inl TypeError \<and> st' = st)"
  proof (cases v)
    case (VRef a)
    show ?thesis
    proof (cases "hasProp (heap st) a ''$ref'' \<or> a \<in> seen st")
      case True
      with run VRef obtain d where "genericObject (warn d st) = (r, st')"
        by (auto split: if_splits)
      then have "r = Inr (VRef (length (heap st)))"
        and "st' = (warn d st)\<lparr>heap := heap st @ [Obj [(''type'', VStr ''object'')]]\<rparr>"
        by (simp_all add: genericObject_eq warn_def)
      then show ?thesis using VRef by (simp add: steps_def warn_def nth_append)
    next
      case False
      obtain j st1 where pc: "prepareCopy a (st\<lparr>seen := insert a (seen st)\<rparr>) = (j, st1)"
        by (cases "prepareCopy a (st\<lparr>seen := insert a (seen st)\<rparr>)")
      note sh = prepareCopy_shape[OF pc, simplified]
      from run VRef False pc have
        "finallyR (bindR (propertiesPart n j st1)
                     (\<lambda>_ st4. bindR (itemsPart n j st4) (\<lambda>_ st6. Some (Inr (VRef j), st6))))
           (\<lambda>st7. st7\<lparr>seen := seen st7 - {a}\<rparr>) = Some (r, st')"
        by (simp add: mapSchema_Suc_ref del: mapSchema.simps)
      then obtain st6 where
        body: "bindR (propertiesPart n j st1)
                 (\<lambda>_ st4. bindR (itemsPart n j st4) (\<lambda>_ st6. Some (Inr (VRef j), st6)))
                = Some (r, st6)"
        and st': "st' = st6\<lparr>seen := seen st6 - {a}\<rparr>"
        by (rule finallyR_Some)
      from body show ?thesis
      proof (cases rule: bindR_Some)
        case (thrown e)
        from propertiesPart_shape[OF S thrown(1) sh(3)] show ?thesis by simp
      next
        case (returned u st4)
        from propertiesPart_shape[OF S returned(1) sh(3)] have s14: "steps {j} st1 st4" by simp
        from returned(2) show ?thesis
        proof (cases rule: bindR_Some)
          case (thrown e)
          from itemsPart_shape[OF S thrown(1)] show ?thesis by simp
        next
          case (returned u' st6')
          from itemsPart_shape[OF S returned(1)] have s46: "steps {j} st4 st6'" by simp
          from returned(2) have r: "r = Inr (VRef j)" and e: "st6' = st6" by simp_all
          from s14 s46 e have s16: "steps {j} st1 st6" using steps_trans by blast
          then have g: "grows {j} (heap st1) (heap st6)" and sn: "seen st6 = seen st1"
            by (simp_all add: steps_def)
          from sh(2) have "grows {j} (heap st) (heap st1)" by (rule grows_mono) simp
          from grows_trans[OF this g] have "grows {} (heap st) (heap st6)"
            by (rule grows_mono) (simp add: sh(1))
          moreover from sn sh(5) False st' have "seen st' = seen st" by auto
          moreover from g sh(3) have "j < length (heap st6)" by (simp add: grows_def)
          moreover from grows_isArr[OF g sh(3)] sh(4) have "\<not> isArr (heap st6 ! j)" by simp
          ultimately show ?thesis using VRef r st' sh(1) by (simp add: steps_def)
        qed
      qed
    qed
  qed (use run in auto)
qed

lemma mapSchema_shape: "schemaShape n"
proof (induction n)
  case 0
  show ?case by (simp add: schemaShape_def)
next
  case (Suc n)
  then show ?case by (rule mapSchema_shape_step)
qed

section \<open>The tool extractor: one tool per retained operation\<close>

text \<open>
  The declared operations of a document, in the order the two loops visit them, and the
  ones among them that reach \<open>tools.push\<close>: the filter stage lets them pass and their
  base identifier is not empty.
\<close>

definition methodOps :: "pathItem \<Rightarrow> httpMethod list \<Rightarrow> (httpMethod \<times> operation) list" where
  "methodOps pathItem ms =
     List.map_filter (\<lambda>m. map_option (Pair m) (pi_operations pathItem m)) ms"

definition pathOps ::
  "(string \<times> pathItem option) list \<Rightarrow> (string \<times> pathItem \<times> httpMethod \<times> operation) list" where
  "pathOps paths =
     concat (map (\<lambda>(path, pio).
        case pio of
          None \<Rightarrow> []
        | Some pathItem \<Rightarrow> map (\<lambda>(m, operation). (path, pathItem, m, operation))
                              (methodOps pathItem HttpMethods)) paths)"

definition declaredOperations ::
  "document \<Rightarrow> (string \<times> pathItem \<times> httpMethod \<times> operation) list" where
  "declaredOperations api = (case api_paths api of None \<Rightarrow> [] | Some paths \<Rightarrow> pathOps paths)"

definition filterDecision :: "inclusionFilter \<Rightarrow> document \<Rightarrow> bool \<Rightarrow> pathItem \<Rightarrow> operation \<Rightarrow> bool" where
  "filterDecision flt api defaultInclude pathItem operation =
     (case flt api pathItem operation defaultInclude of
        (Inr included, w) \<Rightarrow> included
      | (Inl e, w) \<Rightarrow> defaultInclude)"

definition baseIdentifier ::
  "(httpMethod \<Rightarrow> string \<Rightarrow> string) \<Rightarrow> string \<times> pathItem \<times> httpMethod \<times> operation \<Rightarrow> string" where
  "baseIdentifier gen x =
     (case x of (path, pathItem, m, operation) \<Rightarrow> or_str (op_operationId operation) (gen m path))"

definition retained ::
  "inclusionFilter \<Rightarrow> (httpMethod \<Rightarrow> string \<Rightarrow> string) \<Rightarrow> document \<Rightarrow> bool
     \<Rightarrow> string \<times> pathItem \<times> httpMethod \<times> operation \<Rightarrow> bool" where
  "retained flt gen api defaultInclude x =
     (case x of (path, pathItem, m, operation) \<Rightarrow>
        filterDecision flt api defaultInclude pathItem operation \<and> baseIdentifier gen x \<noteq> [])"

definition retainedOperations ::
  "inclusionFilter \<Rightarrow> (httpMethod \<Rightarrow> string \<Rightarrow> string) \<Rightarrow> document \<Rightarrow> bool
     \<Rightarrow> (string \<times> pathItem \<times> httpMethod \<times> operation) list" where
  "retainedOperations flt gen api defaultInclude =
     filter (retained flt gen api defaultInclude) (declaredOperations api)"

text \<open>The names the run hands out, given the names used so far and the sanitized bases.\<close>

fun assignNames :: "string list \<Rightarrow> string list \<Rightarrow> string list" where
  "assignNames used [] = []"
| "assignNames used (b # bs) =
     findName used b b 1 # assignNames (used @ [findName used b b 1]) bs"

text \<open>What a tool records of the operation it was made from.\<close>

definition toolOf ::
  "(httpMethod \<Rightarrow> string \<Rightarrow> string) \<Rightarrow> document
     \<Rightarrow> string \<times> pathItem \<times> httpMethod \<times> operation \<Rightarrow> tool \<Rightarrow> bool" where
  "toolOf gen api x t =
     (case x of (path, pathItem, m, operation) \<Rightarrow>
        t_method t = m \<and> t_pathTemplate t = path
        \<and> t_operationId t = sanitize (baseIdentifier gen x)
        \<and> t_securityRequirements t = securityRequirements api operation
        \<and> t_description t =
            or_str (op_description operation)
              (or_str (op_summary operation) (''Executes '' @ method_upper m @ '' '' @ path)))"

lemma applyFilter_fst:
  "fst (applyFilter flt api d path pathItem m operation st) = filterDecision flt api d pathItem operation"
  by (auto simp: applyFilter_def filterDecision_def Let_def split: prod.splits sum.splits)

lemma processOperation_spec:
  assumes "processOperation flt gen api d path pathItem m operation acc st = Some (Inr acc', st')"
  shows "if retained flt gen api d (path, pathItem, m, operation)
         then \<exists>t. acc' = (fst acc @ [t], snd acc @ [t_name t])
                \<and> t_name t = findName (snd acc) (sanitize (baseIdentifier gen (path, pathItem, m, operation)))
                               (sanitize (baseIdentifier gen (path, pathItem, m, operation))) 1
                \<and> toolOf gen api (path, pathItem, m, operation) t
         else acc' = acc"
proof -
  obtain inc st1 where af: "applyFilter flt api d path pathItem m operation st = (inc, st1)"
    by (cases "applyFilter flt api d path pathItem m operation st")
  with applyFilter_fst[of flt api d path pathItem m operation st]
  have inc: "inc = filterDecision flt api d pathItem operation" by simp
  let ?b0 = "or_str (op_operationId operation) (gen m path)"
  show ?thesis
  proof (cases "inc \<and> ?b0 \<noteq> []")
    case False
    with assms af inc show ?thesis
      by (auto simp: processOperation_def retained_def baseIdentifier_def)
  next
    case True
    let ?t = "\<lambda>sd. \<lparr>t_name = findName (snd acc) (sanitize ?b0) (sanitize ?b0) 1,
                    t_description = or_str (op_description operation)
                      (or_str (op_summary operation)
                         (''Executes '' @ method_upper m @ '' '' @ path)),
                    t_inputSchema = sd_inputSchema sd,
                    t_method = m,
                    t_pathTemplate = path,
                    t_parameters = sd_parameters sd,
                    t_executionParameters = map (\<lambda>p. (p_name p, p_in p)) (sd_parameters sd),
                    t_requestBodyContentType = sd_requestBodyContentType sd,
                    t_securityRequirements = securityRequirements api operation,
                    t_operationId = sanitize ?b0\<rparr>"
    from assms af True have
      "bindR (generateInputSchemaAndDetails operation pathItem st1)
         (\<lambda>sd st2. Some (Inr (fst acc @ [?t sd],
                                snd acc @ [findName (snd acc) (sanitize ?b0) (sanitize ?b0) 1]), st2))
       = Some (Inr acc', st')"
      by (simp add: processOperation_def Let_def)
    then show ?thesis
    proof (cases rule: bindR_Some)
      case (thrown e)
      then show ?thesis by simp
    next
      case (returned sd st2)
      from returned(2) have
        "acc' = (fst acc @ [?t sd], snd acc @ [findName (snd acc) (sanitize ?b0) (sanitize ?b0) 1])"
        by auto
      with True inc show ?thesis
        by (simp add: retained_def baseIdentifier_def toolOf_def)
    qed
  qed
qed

definition extends ::
  "(httpMethod \<Rightarrow> string \<Rightarrow> string) \<Rightarrow> document
     \<Rightarrow> (string \<times> pathItem \<times> httpMethod \<times> operation) list
     \<Rightarrow> tool list \<times> string list \<Rightarrow> tool list \<times> string list \<Rightarrow> bool" where
  "extends gen api R acc acc' =
     (\<exists>new. acc' = (fst acc @ new, snd acc @ map t_name new)
          \<and> list_all2 (toolOf gen api) R new
          \<and> map t_name new = assignNames (snd acc) (map (\<lambda>x. sanitize (baseIdentifier gen x)) R))"

lemma extends_Nil [simp]: "extends gen api [] acc acc"
  by (simp add: extends_def)

lemma extends_append:
  assumes "extends gen api R1 acc acc1" "extends gen api R2 acc1 acc2"
  shows "extends gen api (R1 @ R2) acc acc2"
proof -
  have an: "assignNames u (bs @ cs) = assignNames u bs @ assignNames (u @ assignNames u bs) cs"
    for u bs cs by (induction bs arbitrary: u) simp_all
  from assms show ?thesis
    unfolding extends_def
    by (auto simp: an intro: list_all2_appendI)
qed

lemma processOperation_extends:
  assumes "processOperation flt gen api d path pathItem m operation acc st = Some (Inr acc', st')"
  shows "extends gen api (filter (retained flt gen api d) [(path, pathItem, m, operation)]) acc acc'"
  using processOperation_spec[OF assms]
  by (auto simp: extends_def split: if_splits)

lemma methodLoop_extends:
  "methodLoop flt gen api d path pathItem ms acc st = Some (Inr acc', st') \<Longrightarrow>
   extends gen api
     (filter (retained flt gen api d)
        (map (\<lambda>(m, operation). (path, pathItem, m, operation)) (methodOps pathItem ms)))
     acc acc'"
proof (induction ms arbitrary: acc st)
  case Nil
  then show ?case by (simp add: methodOps_def List.map_filter_simps)
next
  case (Cons m ms)
  show ?case
  proof (cases "pi_operations pathItem m")
    case None
    with Cons show ?thesis by (simp add: methodOps_def List.map_filter_simps)
  next
    case (Some operation)
    with Cons.prems have
      "bindR (processOperation flt gen api d path pathItem m operation acc st)
         (\<lambda>acc' st'. methodLoop flt gen api d path pathItem ms acc' st') = Some (Inr acc', st')"
      by simp
    then obtain acc1 st1 where
      p: "processOperation flt gen api d path pathItem m operation acc st = Some (Inr acc1, st1)"
      and l: "methodLoop flt gen api d path pathItem ms acc1 st1 = Some (Inr acc', st')"
      by (cases rule: bindR_Some) simp_all
    from extends_append[OF processOperation_extends[OF p] Cons.IH[OF l]] Some
    show ?thesis by (auto simp: methodOps_def List.map_filter_simps split: if_splits)
  qed
qed

lemma pathLoop_extends:
  "pathLoop flt gen api d paths acc st = Some (Inr acc', st') \<Longrightarrow>
   extends gen api (filter (retained flt gen api d) (pathOps paths)) acc acc'"
proof (induction paths arbitrary: acc st)
  case Nil
  then show ?case by (simp add: pathOps_def)
next
  case (Cons p paths)
  obtain path pio where p: "p = (path, pio)" by (cases p)
  show ?case
  proof (cases pio)
    case None
    with Cons p show ?thesis by (simp add: pathOps_def)
  next
    case (Some pathItem)
    with Cons.prems p have
      "bindR (methodLoop flt gen api d path pathItem HttpMethods acc st)
         (\<lambda>acc' st'. pathLoop flt gen api d paths acc' st') = Some (Inr acc', st')"
      by simp
    then obtain acc1 st1 where
      m: "methodLoop flt gen api d path pathItem HttpMethods acc st = Some (Inr acc1, st1)"
      and l: "pathLoop flt gen api d paths acc1 st1 = Some (Inr acc', st')"
      by (cases rule: bindR_Some) simp_all
    from extends_append[OF methodLoop_extends[OF m] Cons.IH[OF l]] Some p
    show ?thesis by (simp add: pathOps_def)
  qed
qed

lemma extendsD:
  assumes "extends gen api R ([], []) (tools, used)"
  shows "list_all2 (toolOf gen api) R tools"
    and "map t_name tools = assignNames [] (map (\<lambda>x. sanitize (baseIdentifier gen x)) R)"
proof -
  from assms obtain new where
    "(tools, used) = (new, map t_name new)" "list_all2 (toolOf gen api) R new"
    "map t_name new = assignNames [] (map (\<lambda>x. sanitize (baseIdentifier gen x)) R)"
    unfolding extends_def by auto
  then show "list_all2 (toolOf gen api) R tools"
    and "map t_name tools = assignNames [] (map (\<lambda>x. sanitize (baseIdentifier gen x)) R)"
    by simp_all
qed

lemma extractToolsWith_spec:
  assumes "extractToolsWith flt gen api d st = Some (Inr tools, st')"
  shows "list_all2 (toolOf gen api) (retainedOperations flt gen api d) tools"
    and "map t_name tools =
           assignNames [] (map (\<lambda>x. sanitize (baseIdentifier gen x)) (retainedOperations flt gen api d))"
proof -
  have "\<exists>used. extends gen api (retainedOperations flt gen api d) ([], []) (tools, used)"
  proof (cases "api_paths api")
    case None
    with assms have "tools = []" by (simp add: extractToolsWith_def)
    with None show ?thesis
      by (auto simp: retainedOperations_def declaredOperations_def intro: exI[of _ "[]"])
  next
    case (Some paths)
    with assms have
      "bindR (pathLoop flt gen api d paths ([], []) st) (\<lambda>acc st'. Some (Inr (fst acc), st'))
         = Some (Inr tools, st')"
      by (simp add: extractToolsWith_def)
    then obtain acc where
      l: "pathLoop flt gen api d paths ([], []) st = Some (Inr acc, st')" and t: "tools = fst acc"
      by (cases rule: bindR_Some) simp_all
    from pathLoop_extends[OF l] Some have
      "extends gen api (retainedOperations flt gen api d) ([], []) acc"
      by (simp add: retainedOperations_def declaredOperations_def)
    with t show ?thesis by (cases acc) auto
  qed
  then obtain used where
    e: "extends gen api (retainedOperations flt gen api d) ([], []) (tools, used)" ..
  from extendsD[OF e]
  show "list_all2 (toolOf gen api) (retainedOperations flt gen api d) tools"
    and "map t_name tools =
           assignNames [] (map (\<lambda>x. sanitize (baseIdentifier gen x)) (retainedOperations flt gen api d))"
    by simp_all
qed

section \<open>Tool names\<close>

lemma findName_fresh: "findName used b nm c \<notin> set used"
  by (induction used b nm c rule: findName.induct) (subst findName.simps, simp)

lemma findName_unused: "nm \<notin> set used \<Longrightarrow> findName used b nm c = nm"
  by (subst findName.simps) simp


lemma findName_suffix:
  "nm \<in> set used \<Longrightarrow>
   \<exists>k\<ge>c. findName used b nm c = candidate b k \<and> (\<forall>i. c \<le> i \<and> i < k \<longrightarrow> candidate b i \<in> set used)"
proof (induction used b nm c rule: findName.induct)
  case (1 used b nm c)
  show ?case
  proof (cases "candidate b c \<in> set used")
    case True
    from "1.IH"[OF "1.prems" True] obtain k where
      k: "Suc c \<le> k" "findName used b (candidate b c) (Suc c) = candidate b k"
         "\<forall>i. Suc c \<le> i \<and> i < k \<longrightarrow> candidate b i \<in> set used" by blast
    have "\<forall>i. c \<le> i \<and> i < k \<longrightarrow> candidate b i \<in> set used"
    proof (intro allI impI)
      fix i assume "c \<le> i \<and> i < k"
      then show "candidate b i \<in> set used" using True k(3) by (cases "i = c") auto
    qed
    with k(1,2) "1.prems" show ?thesis
      by (subst findName.simps) (auto intro!: exI[of _ k])
  next
    case False
    with "1.prems" have "findName used b nm c = candidate b c"
      by (subst findName.simps) (simp add: findName_unused)
    then show ?thesis by (auto intro!: exI[of _ c])
  qed
qed

lemma assignNames_length [simp]: "length (assignNames used bs) = length bs"
  by (induction bs arbitrary: used) simp_all

lemma assignNames_disjoint: "set (assignNames used bs) \<inter> set used = {}"
proof (induction bs arbitrary: used)
  case Nil show ?case by simp
next
  case (Cons b bs)
  from Cons.IH[of "used @ [findName used b b 1]"] findName_fresh[of used b b 1]
  show ?case by auto
qed

lemma assignNames_distinct: "distinct (assignNames used bs)"
proof (induction bs arbitrary: used)
  case Nil show ?case by simp
next
  case (Cons b bs)
  from assignNames_disjoint[of "used @ [findName used b b 1]" bs] Cons.IH
  show ?case by auto
qed

lemma assignNames_nth:
  "i < length bs \<Longrightarrow>
   assignNames used bs ! i = findName (used @ take i (assignNames used bs)) (bs ! i) (bs ! i) 1"
proof (induction bs arbitrary: used i)
  case Nil then show ?case by simp
next
  case (Cons b bs)
  show ?case
  proof (cases i)
    case 0 then show ?thesis by simp
  next
    case (Suc i')
    with Cons.prems have "i' < length bs" by simp
    from Cons.IH[OF this, of "used @ [findName used b b 1]"] Suc show ?thesis by simp
  qed
qed

lemma sanitize_chars:
  "sanitize s = map (\<lambda>c. if allowed_char c then c else CHR ''_'') s"
  by (auto simp: sanitize_def allowed_char_def Let_def)

lemma assignNames_spec:
  assumes i: "i < length bs"
  shows "let b = bs ! i; earlier = set (take i (assignNames [] bs)) in
         if b \<notin> earlier then assignNames [] bs ! i = b
         else \<exists>k\<ge>1. assignNames [] bs ! i = candidate b k
                \<and> (\<forall>l. 1 \<le> l \<and> l < k \<longrightarrow> candidate b l \<in> earlier)"
proof -
  let ?e = "take i (assignNames [] bs)"
  have n: "assignNames [] bs ! i = findName ?e (bs ! i) (bs ! i) 1"
    using assignNames_nth[OF i, of "[]"] by simp
  show ?thesis
  proof (cases "bs ! i \<in> set ?e")
    case False
    with n show ?thesis by (simp add: findName_unused)
  next
    case True
    from findName_suffix[OF True, of 1 "bs ! i"] n True show ?thesis
      by (simp add: Let_def)
  qed
qed

lemma assignNames_repeat:
  assumes ij: "i < j" "j < length bs" and eq: "bs ! i = bs ! j"
  shows "\<exists>k\<ge>1. assignNames [] bs ! j = candidate (bs ! j) k"
proof -
  let ?ns = "assignNames [] bs"
  from ij have i: "i < length bs" by simp
  have in_j: "?ns ! i \<in> set (take j ?ns)"
    using ij by (auto simp: in_set_conv_nth intro!: exI[of _ i])
  have sub: "set (take i ?ns) \<subseteq> set (take j ?ns)"
    using ij(1) by (meson less_imp_le_nat set_take_subset_set_take)
  have "bs ! j \<in> set (take j ?ns)"
  proof (cases "bs ! i \<in> set (take i ?ns)")
    case True
    with sub eq show ?thesis by auto
  next
    case False
    with assignNames_spec[OF i] have "?ns ! i = bs ! i" by (simp add: Let_def)
    with in_j eq show ?thesis by simp
  qed
  with assignNames_spec[OF ij(2)] show ?thesis by (auto simp: Let_def)
qed

text \<open>A small document: two operations whose identifiers sanitize to the same name.\<close>

definition exampleListOp :: operation where
  "exampleListOp =
     \<lparr>op_operationId = Some ''pets.list'', op_description = None, op_summary = None,
      op_x_mcp = VUndefined, op_parameters = None, op_requestBody = None,
      op_security = SecArray []\<rparr>"

definition exampleCreateOp :: operation where
  "exampleCreateOp =
     \<lparr>op_operationId = Some ''pets_list'', op_description = None, op_summary = None,
      op_x_mcp = VUndefined, op_parameters = None, op_requestBody = None,
      op_security = SecNull\<rparr>"

definition examplePathItem :: pathItem where
  "examplePathItem =
     \<lparr>pi_x_mcp = VUndefined, pi_parameters = None,
      pi_operations = [GET \<mapsto> exampleListOp, POST \<mapsto> exampleCreateOp]\<rparr>"

definition exampleApi :: document where
  "exampleApi =
     \<lparr>api_x_mcp = VUndefined,
      api_security = Some [[(''apiKey'', [])]],
      api_paths = Some [(''/pets'', Some examplePathItem)]\<rparr>"

definition emptyState :: mstate where
  "emptyState = \<lparr>heap = [], seen = {}, log = []\<rparr>"



lemma exampleApi_run:
  "(case extractToolsFromApi (\<lambda>m p. []) exampleApi True emptyState of
      Some (Inr tools, _) \<Rightarrow>
        map t_name tools = [''pets_list'', ''pets_list_1'']
        \<and> map t_operationId tools = [''pets_list'', ''pets_list'']
        \<and> map t_securityRequirements tools = [[], [[(''apiKey'', [])]]]
    | _ \<Rightarrow> False)"
  by code_simp



text \<open>
  C6.  The security requirements of a tool are the operation's own array when the field
  holds one (the empty array included), and the document's global array, or the empty
  list when the document has none, when the field is absent or \<open>null\<close>.
\<close>

theorem security_resolution:
  assumes run: "extractToolsFromApi gen api d st = Some (Inr tools, st')"
  shows "list_all2
           (\<lambda>x t. case x of (path, pathItem, m, operation) \<Rightarrow>
              t_pathTemplate t = path \<and> t_method t = m \<and>
              t_securityRequirements t =
                (case op_security operation of
                   SecArray reqs \<Rightarrow> reqs
                 | SecNull \<Rightarrow> (case api_security api of None \<Rightarrow> [] | Some g \<Rightarrow> g)
                 | SecAbsent \<Rightarrow> (case api_security api of None \<Rightarrow> [] | Some g \<Rightarrow> g)))
           (retainedOperations helpersFilter gen api d) tools"
proof -
  from run have w: "extractToolsWith helpersFilter gen api d st = Some (Inr tools, st')"
    by (simp add: extractToolsFromApi_def)
  show ?thesis
  proof (rule list_all2_mono[OF extractToolsWith_spec(1)[OF w]])
    fix x t
    assume t: "toolOf gen api x t"
    obtain path pathItem m operation where x: "x = (path, pathItem, m, operation)"
      by (cases x)
    from t x have "t_pathTemplate t = path" "t_method t = m"
      "t_securityRequirements t = securityRequirements api operation"
      by (simp_all add: toolOf_def)
    then show "case x of (path, pathItem, m, operation) \<Rightarrow>
              t_pathTemplate t = path \<and> t_method t = m \<and>
              t_securityRequirements t =
                (case op_security operation of
                   SecArray reqs \<Rightarrow> reqs
                 | SecNull \<Rightarrow> (case api_security api of None \<Rightarrow> [] | Some g \<Rightarrow> g)
                 | SecAbsent \<Rightarrow> (case api_security api of None \<Rightarrow> [] | Some g \<Rightarrow> g))"
      unfolding x
      by (cases "op_security operation")
         (simp_all add: securityRequirements_def globalSecurity_def)
  qed
qed

theorem security_resolution_witness:
  "\<exists>tools st'. extractToolsFromApi (\<lambda>m p. []) exampleApi True emptyState = Some (Inr tools, st')
     \<and> map t_securityRequirements tools = [[], [[(''apiKey'', [])]]]
     \<and> list_all2
           (\<lambda>x t. case x of (path, pathItem, m, operation) \<Rightarrow>
              t_pathTemplate t = path \<and> t_method t = m \<and>
              t_securityRequirements t =
                (case op_security operation of
                   SecArray reqs \<Rightarrow> reqs
                 | SecNull \<Rightarrow> (case api_security exampleApi of None \<Rightarrow> [] | Some g \<Rightarrow> g)
                 | SecAbsent \<Rightarrow> (case api_security exampleApi of None \<Rightarrow> [] | Some g \<Rightarrow> g)))
           (retainedOperations helpersFilter (\<lambda>m p. []) exampleApi True) tools"
proof -
  let ?run = "extractToolsFromApi (\<lambda>m p. []) exampleApi True emptyState"
  from exampleApi_run obtain p where p: "?run = Some p" by (cases ?run) simp_all
  obtain r st' where rs: "p = (r, st')" by (cases p)
  from exampleApi_run p rs obtain tools where r: "r = Inr tools" by (cases r) simp_all
  from p rs r have run: "?run = Some (Inr tools, st')" by simp
  from exampleApi_run have sec: "map t_securityRequirements tools = [[], [[(''apiKey'', [])]]]"
    unfolding run by simp
  show ?thesis
    by (intro exI[of _ tools] exI[of _ st'] conjI)
       (rule run, rule sec, rule security_resolution[OF run])
qed

text \<open>
  C9 does not hold of the code: \<open>baseName\<close> is overwritten by its sanitized form
  before the tool is built, so the tool made from the operation declared as
  \<open>pets.list\<close> records \<open>pets_list\<close> as its \<open>operationId\<close>.
\<close>

theorem operationId_is_sanitized:
  "op_operationId exampleListOp = Some ''pets.list'' \<and>
   (case extractToolsFromApi (\<lambda>m p. []) exampleApi True emptyState of
      Some (Inr tools, _) \<Rightarrow> t_operationId (hd tools) = ''pets_list''
    | _ \<Rightarrow> False)"
  by code_simp

text \<open>
  C4.  When the filter throws, the failure is logged with the operation's identifier (or
  its method and path) and the \<open>x-mcp\<close> value in force, and the default decides, whatever
  the \<open>x-mcp\<close> values are: with the default \<open>false\<close> the loop body hits \<open>continue\<close> and the
  accumulated tools are as before; with the default \<open>true\<close> the operation is retained, and
  once its input schema has been generated a tool for it, with its method, path and
  identifier, is appended (an operation without any base identifier is skipped after the
  filter stage, as it is for every decision of the filter).
\<close>

theorem filter_failure_policy:
  assumes thrown: "flt api pathItem operation d = (Inl e, w)"
  shows "let st1 = warn (XmcpEvalError
                            (or_str (op_operationId operation) (method_str m @ '' '' @ path))
                            (nullish (op_x_mcp operation)
                               (nullish (pi_x_mcp pathItem) (api_x_mcp api))) e)
                     (st\<lparr>log := log st @ w\<rparr>);
             baseName0 = or_str (op_operationId operation) (gen m path)
         in applyFilter flt api d path pathItem m operation st = (d, st1)
          \<and> filterDecision flt api d pathItem operation = d
          \<and> retained flt gen api d (path, pathItem, m, operation) = (d \<and> baseName0 \<noteq> [])
          \<and> (\<not> d \<longrightarrow>
                processOperation flt gen api d path pathItem m operation acc st
                  = Some (Inr acc, st1))
          \<and> (\<forall>sd st2. d \<and> baseName0 \<noteq> []
                \<and> generateInputSchemaAndDetails operation pathItem st1 = Some (Inr sd, st2) \<longrightarrow>
                (\<exists>t. processOperation flt gen api d path pathItem m operation acc st
                        = Some (Inr (fst acc @ [t], snd acc @ [t_name t]), st2)
                    \<and> t_method t = m \<and> t_pathTemplate t = path
                    \<and> t_operationId t = sanitize baseName0
                    \<and> t_name t = findName (snd acc) (sanitize baseName0) (sanitize baseName0) 1
                    \<and> t_inputSchema t = sd_inputSchema sd))"
proof -
  let ?st1 = "warn (XmcpEvalError
                     (or_str (op_operationId operation) (method_str m @ '' '' @ path))
                     (nullish (op_x_mcp operation)
                        (nullish (pi_x_mcp pathItem) (api_x_mcp api))) e)
                (st\<lparr>log := log st @ w\<rparr>)"
  let ?b0 = "or_str (op_operationId operation) (gen m path)"
  have af: "applyFilter flt api d path pathItem m operation st = (d, ?st1)"
    using thrown by (simp add: applyFilter_def Let_def)
  have fd: "filterDecision flt api d pathItem operation = d"
    using thrown by (simp add: filterDecision_def)
  have rt: "retained flt gen api d (path, pathItem, m, operation) = (d \<and> ?b0 \<noteq> [])"
    using fd by (simp add: retained_def baseIdentifier_def)
  have no: "processOperation flt gen api d path pathItem m operation acc st = Some (Inr acc, ?st1)"
    if "\<not> d"
    using that af by (simp add: processOperation_def)
  have yes: "\<exists>t. processOperation flt gen api d path pathItem m operation acc st
                        = Some (Inr (fst acc @ [t], snd acc @ [t_name t]), st2)
                    \<and> t_method t = m \<and> t_pathTemplate t = path
                    \<and> t_operationId t = sanitize ?b0
                    \<and> t_name t = findName (snd acc) (sanitize ?b0) (sanitize ?b0) 1
                    \<and> t_inputSchema t = sd_inputSchema sd"
    if "d \<and> ?b0 \<noteq> [] \<and> generateInputSchemaAndDetails operation pathItem ?st1 = Some (Inr sd, st2)"
    for sd st2
    using that af by (simp add: processOperation_def Let_def)
  from af fd rt no yes show ?thesis unfolding Let_def by blast
qed

text \<open>A filter that always throws, on the two operations of the example document.\<close>

definition throwingFilter :: inclusionFilter where
  "throwingFilter api pathItem operation defaultInclude = (Inl TypeError, [])"

lemma throwingFilter_runs:
  "(case extractToolsWith throwingFilter (\<lambda>m p. []) exampleApi True emptyState of
      Some (Inr tools, st') \<Rightarrow>
        map t_name tools = [''pets_list'', ''pets_list_1'']
        \<and> log st' = [XmcpEvalError ''pets.list'' VUndefined TypeError,
                     XmcpEvalError ''pets_list'' VUndefined TypeError]
    | _ \<Rightarrow> False)
   \<and> (case extractToolsWith throwingFilter (\<lambda>m p. []) exampleApi False emptyState of
      Some (Inr tools, st') \<Rightarrow>
        tools = []
        \<and> log st' = [XmcpEvalError ''pets.list'' VUndefined TypeError,
                     XmcpEvalError ''pets_list'' VUndefined TypeError]
    | _ \<Rightarrow> False)"
  by code_simp

lemma exampleListOp_schema:
  "generateInputSchemaAndDetails exampleListOp examplePathItem s =
     Some (Inr \<lparr>sd_inputSchema = \<lparr>is_type = ''object'', is_properties = Map.empty,
                                  is_required = None\<rparr>,
                sd_parameters = [], sd_requestBodyContentType = None\<rparr>, s)"
  by (simp add: generateInputSchemaAndDetails_def exampleListOp_def examplePathItem_def
      mergeParameters_def bodySchema_def)

theorem filter_failure_policy_witness:
  "(\<exists>t. processOperation throwingFilter (\<lambda>m p. []) exampleApi True ''/pets''
            examplePathItem GET exampleListOp ([], []) emptyState
          = Some (Inr ([t], [t_name t]),
                  emptyState\<lparr>log := [XmcpEvalError ''pets.list'' VUndefined TypeError]\<rparr>)
        \<and> t_method t = GET \<and> t_pathTemplate t = ''/pets'' \<and> t_name t = ''pets_list'')
   \<and> processOperation throwingFilter (\<lambda>m p. []) exampleApi False ''/pets''
       examplePathItem GET exampleListOp ([], []) emptyState
     = Some (Inr ([], []),
             emptyState\<lparr>log := [XmcpEvalError ''pets.list'' VUndefined TypeError]\<rparr>)"
proof -
  let ?st1 = "emptyState\<lparr>log := [XmcpEvalError ''pets.list'' VUndefined TypeError]\<rparr>"
  have thr: "throwingFilter exampleApi examplePathItem exampleListOp d
          = (Inl TypeError, [] :: diag list)" for d
    by (simp add: throwingFilter_def)
  have st1: "warn (XmcpEvalError
                    (or_str (op_operationId exampleListOp) (method_str GET @ '' '' @ ''/pets''))
                    (nullish (op_x_mcp exampleListOp)
                       (nullish (pi_x_mcp examplePathItem) (api_x_mcp exampleApi))) TypeError)
               (emptyState\<lparr>log := log emptyState @ []\<rparr>) = ?st1"
    by (simp add: warn_def emptyState_def exampleListOp_def examplePathItem_def
        exampleApi_def or_str_def)
  have b0: "or_str (op_operationId exampleListOp) ((\<lambda>m p. []) GET ''/pets'') = ''pets.list''"
    by (simp add: exampleListOp_def or_str_def)
  have nm: "findName (snd ([] :: tool list, [] :: string list)) (sanitize ''pets.list'')
              (sanitize ''pets.list'') 1 = ''pets_list''"
    by (simp add: findName_unused) code_simp
  note pol = filter_failure_policy[where flt = throwingFilter and api = exampleApi
      and pathItem = examplePathItem and operation = exampleListOp and e = TypeError
      and w = "[]" and m = GET and path = "''/pets''" and st = emptyState
      and gen = "\<lambda>m p. []" and acc = "([], [])", unfolded Let_def st1 b0]
  from pol[OF thr, of True] exampleListOp_schema[of ?st1]
  have "\<exists>t. processOperation throwingFilter (\<lambda>m p. []) exampleApi True ''/pets''
            examplePathItem GET exampleListOp ([], []) emptyState
          = Some (Inr ([t], [t_name t]), ?st1)
        \<and> t_method t = GET \<and> t_pathTemplate t = ''/pets'' \<and> t_name t = ''pets_list''"
    unfolding nm by auto
  moreover from pol[OF thr, of False]
  have "processOperation throwingFilter (\<lambda>m p. []) exampleApi False ''/pets''
       examplePathItem GET exampleListOp ([], []) emptyState = Some (Inr ([], []), ?st1)"
    by simp
  ultimately show ?thesis by blast
qed

section \<open>The schema mapper: termination\<close>

text \<open>
  A heap is closed up to \<open>n0\<close> when the first \<open>n0\<close> cells only refer to each other:
  the cells of the document, before the mapper has allocated anything.
\<close>

fun vals :: "hobj \<Rightarrow> val list" where
  "vals (Obj es) = map snd es"
| "vals (Arr xs) = xs"

definition refs_below :: "nat \<Rightarrow> hobj \<Rightarrow> bool" where
  "refs_below n0 c = (\<forall>b. VRef b \<in> set (vals c) \<longrightarrow> b < n0)"

definition closedUpTo :: "nat \<Rightarrow> heap \<Rightarrow> bool" where
  "closedUpTo n0 h = (n0 \<le> length h \<and> (\<forall>a<n0. refs_below n0 (h ! a)))"

lemma cell_nth: "a < length h \<Longrightarrow> cell h a = h ! a"
  by (simp add: cell_def)

lemma cell_append: "a < length h \<Longrightarrow> cell (h @ cs) a = cell h a"
  by (simp add: cell_def nth_append)

lemma cell_update: "cell (h[a := c]) b = (if b = a \<and> a < length h then c else cell h b)"
  by (auto simp: cell_def)

lemma cell_setProp:
  "cell (setProp a k v h) b =
     (if b = a \<and> a < length h
      then (case h ! a of
              Obj es \<Rightarrow> if k = ''__proto__'' \<and> k \<notin> fst ` set es then Obj es
                        else Obj (AList.update k v es)
            | Arr xs \<Rightarrow> Arr xs)
      else cell h b)"
  by (auto simp: setProp_def cell_update split: hobj.splits) (force simp: cell_def)+

lemma cell_delProp:
  "cell (delProp a k h) b =
     (if b = a \<and> a < length h
      then (case h ! a of Obj es \<Rightarrow> Obj (AList.delete k es) | Arr xs \<Rightarrow> Arr xs)
      else cell h b)"
  by (auto simp: delProp_def cell_update split: hobj.splits) (auto simp: cell_def)

lemma length_setProp [simp]: "length (setProp a k v h) = length h"
  by (simp add: setProp_def split: hobj.splits)

lemma length_delProp [simp]: "length (delProp a k h) = length h"
  by (simp add: delProp_def split: hobj.splits)

lemma length_fold_delProp [simp]: "length (fold (delProp a) ks h) = length h"
  by (induction ks arbitrary: h) simp_all

lemma getProp_setProp_other:
  "k' \<noteq> k \<Longrightarrow> getProp (setProp a k v h) b k' = getProp h b k'"
  by (auto simp: getProp_def cell_setProp update_conv' cell_nth split: hobj.splits)

lemma getProp_setProp_same:
  "a < length h \<Longrightarrow> \<not> isArr (h ! a) \<Longrightarrow> k \<noteq> ''__proto__''
     \<Longrightarrow> getProp (setProp a k v h) a k = v"
  by (cases "h ! a") (simp_all add: getProp_def cell_setProp update_conv')

lemma getProp_delProp_other:
  "k' \<noteq> k \<Longrightarrow> getProp (delProp a k h) b k' = getProp h b k'"
  by (auto simp: getProp_def cell_delProp delete_conv' cell_nth split: hobj.splits)

lemma getProp_fold_delProp_other:
  "k' \<notin> set ks \<Longrightarrow> getProp (fold (delProp a) ks h) b k' = getProp h b k'"
  by (induction ks arbitrary: h) (simp_all add: getProp_delProp_other)

lemma getProp_append: "b < length h \<Longrightarrow> getProp (h @ cs) b k = getProp h b k"
  by (simp add: getProp_def cell_append)

lemma getProp_update_arr:
  "cell h t = Arr xs \<Longrightarrow> getProp (h[t := Arr ys]) b k = getProp h b k"
  by (auto simp: getProp_def cell_update)

lemma getProp_foldNullable_other:
  assumes "k \<noteq> ''type''" "b < length h"
  shows "getProp (foldNullable j h) b k = getProp h b k"
  using assms
  by (auto simp: foldNullable_def getProp_setProp_other getProp_append getProp_update_arr
           split: val.splits hobj.splits)

text \<open>What the copy holds under a key that the straight-line part does not touch.\<close>

lemma prepareCopy_getProp:
  assumes pc: "prepareCopy a st = (j, st1)"
    and k: "k \<noteq> ''type''" "k \<notin> set removedKeys"
  shows "getProp (heap st1) j k =
           (case map_of (entries_of (cell (heap st) a)) k of None \<Rightarrow> VUndefined | Some v \<Rightarrow> v)"
proof -
  let ?h = "heap st"
  let ?h1 = "?h @ [Obj (entries_of (cell ?h a))]"
  let ?h2 = "(if getProp ?h1 a ''type'' = VStr ''integer''
                then setProp (length ?h) ''type'' (VStr ''number'') ?h1 else ?h1)"
  let ?h3 = "fold (delProp (length ?h)) removedKeys ?h2"
  let ?h4 = "(if truthy (getProp ?h3 a ''nullable'') then foldNullable (length ?h) ?h3 else ?h3)"
  from pc have "(length ?h, st\<lparr>heap := ?h4\<rparr>) = (j, st1)"
    unfolding prepareCopy_def Let_def .
  then have "length ?h = j \<and> st\<lparr>heap := ?h4\<rparr> = st1" by (rule iffD1[OF prod.inject])
  then have j: "j = length ?h" and st1: "heap st1 = ?h4" by auto
  have l3: "length ?h < length ?h3" by simp
  have "getProp ?h4 (length ?h) k = getProp ?h3 (length ?h) k"
    using getProp_foldNullable_other[OF k(1) l3] by simp
  also have "\<dots> = getProp ?h2 (length ?h) k" by (rule getProp_fold_delProp_other[OF k(2)])
  also have "\<dots> = getProp ?h1 (length ?h) k" using k(1) by (simp add: getProp_setProp_other)
  also have "\<dots> = (case map_of (entries_of (cell ?h a)) k of None \<Rightarrow> VUndefined | Some v \<Rightarrow> v)"
    by (simp add: getProp_def cell_def)
  finally show ?thesis using j st1 by simp
qed

lemma refs_below_entries:
  assumes "refs_below n0 c" "(k, VRef b) \<in> set (entries_of c)"
  shows "b < n0"
proof (cases c)
  case (Obj es)
  with assms show ?thesis by (force simp: refs_below_def)
next
  case (Arr xs)
  with assms have "VRef b \<in> set xs" by (auto dest: set_zip_rightD)
  with assms Arr show ?thesis by (simp add: refs_below_def)
qed

lemma refs_below_lookup:
  assumes "refs_below n0 c" "map_of (entries_of c) k = Some (VRef b)"
  shows "b < n0"
  using refs_below_entries[OF assms(1) map_of_SomeD[OF assms(2)]] .

lemma closedUpTo_cell: "closedUpTo n0 h \<Longrightarrow> a < n0 \<Longrightarrow> refs_below n0 (cell h a)"
  by (simp add: closedUpTo_def cell_def)

lemma closedUpTo_append: "closedUpTo n0 h \<Longrightarrow> closedUpTo n0 (h @ cs)"
  by (auto simp: closedUpTo_def nth_append)

lemma closedUpTo_above:
  assumes "closedUpTo n0 h" "length h' = length h" "\<And>a. a < n0 \<Longrightarrow> h' ! a = h ! a"
  shows "closedUpTo n0 h'"
  using assms by (simp add: closedUpTo_def)

lemma closedUpTo_setProp: "closedUpTo n0 h \<Longrightarrow> n0 \<le> a \<Longrightarrow> closedUpTo n0 (setProp a k v h)"
  by (auto simp: closedUpTo_def setProp_def split: hobj.splits)

lemma closedUpTo_delProp: "closedUpTo n0 h \<Longrightarrow> n0 \<le> a \<Longrightarrow> closedUpTo n0 (delProp a k h)"
  by (auto simp: closedUpTo_def delProp_def split: hobj.splits)

lemma closedUpTo_fold_delProp:
  "closedUpTo n0 h \<Longrightarrow> n0 \<le> a \<Longrightarrow> closedUpTo n0 (fold (delProp a) ks h)"
  by (induction ks arbitrary: h) (simp_all add: closedUpTo_delProp)

lemma closedUpTo_push:
  assumes c: "closedUpTo n0 h" and t: "cell h t = Arr xs"
  shows "closedUpTo n0 (h[t := Arr (xs @ [VStr s])])"
  unfolding closedUpTo_def
proof (intro conjI allI impI)
  from c show "n0 \<le> length (h[t := Arr (xs @ [VStr s])])" by (simp add: closedUpTo_def)
  fix a assume a: "a < n0"
  with c have al: "a < length h" and r: "refs_below n0 (h ! a)" by (simp_all add: closedUpTo_def)
  show "refs_below n0 (h[t := Arr (xs @ [VStr s])] ! a)"
  proof (cases "a = t")
    case True
    with t al have "h ! a = Arr xs" by (simp add: cell_def)
    with r True al show ?thesis by (simp add: refs_below_def)
  next
    case False
    with r show ?thesis by simp
  qed
qed

lemma closedUpTo_foldNullable:
  assumes c: "closedUpTo n0 h" and j: "n0 \<le> j"
  shows "closedUpTo n0 (foldNullable j h)"
proof -
  have s: "closedUpTo n0 (setProp j k v (h @ cs))" for k v cs
    by (rule closedUpTo_setProp[OF closedUpTo_append[OF c] j])
  show ?thesis
    by (auto simp: foldNullable_def c s closedUpTo_push closedUpTo_setProp[OF c j]
        split: val.splits hobj.splits)
qed

lemma prepareCopy_closed:
  assumes pc: "prepareCopy a st = (j, st1)" and c: "closedUpTo n0 (heap st)"
  shows "closedUpTo n0 (heap st1)"
proof -
  let ?h = "heap st"
  let ?h1 = "?h @ [Obj (entries_of (cell ?h a))]"
  let ?h2 = "(if getProp ?h1 a ''type'' = VStr ''integer''
                then setProp (length ?h) ''type'' (VStr ''number'') ?h1 else ?h1)"
  let ?h3 = "fold (delProp (length ?h)) removedKeys ?h2"
  let ?h4 = "(if truthy (getProp ?h3 a ''nullable'') then foldNullable (length ?h) ?h3 else ?h3)"
  from pc have "(length ?h, st\<lparr>heap := ?h4\<rparr>) = (j, st1)"
    unfolding prepareCopy_def Let_def .
  then have "length ?h = j \<and> st\<lparr>heap := ?h4\<rparr> = st1" by (rule iffD1[OF prod.inject])
  then have st1: "heap st1 = ?h4" by auto
  from c have n: "n0 \<le> length ?h" by (simp add: closedUpTo_def)
  have c1: "closedUpTo n0 ?h1" by (rule closedUpTo_append[OF c])
  have c2: "closedUpTo n0 ?h2" using c1 n by (simp add: closedUpTo_setProp)
  have c3: "closedUpTo n0 ?h3" by (rule closedUpTo_fold_delProp[OF c2 n])
  have "closedUpTo n0 ?h4" using c3 n by (simp add: closedUpTo_foldNullable)
  with st1 show ?thesis by simp
qed


definition schemaTotal :: "nat \<Rightarrow> nat \<Rightarrow> bool" where
  "schemaTotal n0 n =
     (\<forall>v st. closedUpTo n0 (heap st) \<and> (\<forall>a. v = VRef a \<longrightarrow> a < n0)
               \<and> card ({..<n0} - seen st) < n
        \<longrightarrow> (\<exists>r st'. mapSchema n v st = Some (r, st') \<and> closedUpTo n0 (heap st')))"

lemma schemaTotalD:
  assumes "schemaTotal n0 n" "closedUpTo n0 (heap st)" "a < n0" "card ({..<n0} - seen st) < n"
  obtains j st' where "mapSchema n (VRef a) st = Some (Inr (VRef j), st')"
    "closedUpTo n0 (heap st')" "seen st' = seen st"
proof -
  from assms obtain r st' where run: "mapSchema n (VRef a) st = Some (r, st')"
    and c: "closedUpTo n0 (heap st')"
    unfolding schemaTotal_def by blast
  from schemaShapeD[OF mapSchema_shape run] obtain j where
    "r = Inr (VRef j)" "steps {} st st'" by blast
  with run c that show ?thesis by (simp add: steps_def)
qed

lemma closedUpTo_setPropS:
  "closedUpTo n0 (heap st) \<Longrightarrow> n0 \<le> a \<Longrightarrow> closedUpTo n0 (heap (setPropS a k v st))"
  by (simp add: setPropS_def closedUpTo_setProp)

lemma seen_setPropS [simp]: "seen (setPropS a k v st) = seen st"
  by (simp add: setPropS_def)

lemma mapProps_total:
  assumes T: "schemaTotal n0 n" and m: "n0 \<le> m"
  shows "closedUpTo n0 (heap st) \<Longrightarrow> (\<forall>k b. (k, VRef b) \<in> set es \<longrightarrow> b < n0)
           \<Longrightarrow> card ({..<n0} - seen st) < n
           \<Longrightarrow> \<exists>st'. mapProps n m es st = Some (Inr (), st') \<and> closedUpTo n0 (heap st')"
proof (induction es arbitrary: st)
  case Nil
  then show ?case by simp
next
  case (Cons kv es)
  obtain key v where kv: "kv = (key, v)" by (cases kv)
  from Cons.prems(2) have rest: "\<forall>k b. (k, VRef b) \<in> set es \<longrightarrow> b < n0" by auto
  show ?case
  proof (cases v)
    case (VRef p)
    with Cons.prems(2) kv have "p < n0" by auto
    from schemaTotalD[OF T Cons.prems(1) this Cons.prems(3)] obtain j st1 where
      run: "mapSchema n (VRef p) st = Some (Inr (VRef j), st1)"
      and c1: "closedUpTo n0 (heap st1)" and s1: "seen st1 = seen st" by blast
    have "\<exists>st'. mapProps n m es (setPropS m key (VRef j) st1) = Some (Inr (), st')
            \<and> closedUpTo n0 (heap st')"
      by (rule Cons.IH[OF closedUpTo_setPropS[OF c1 m] rest]) (simp add: s1 Cons.prems(3))
    with run kv VRef show ?thesis by simp
  next
    case (VBool b)
    have "\<exists>st'. mapProps n m es (setPropS m key (VBool b) st) = Some (Inr (), st')
            \<and> closedUpTo n0 (heap st')"
      by (rule Cons.IH[OF closedUpTo_setPropS[OF Cons.prems(1) m] rest])
         (simp add: Cons.prems(3))
    with kv VBool show ?thesis by simp
  qed (use Cons.IH[OF Cons.prems(1) rest Cons.prems(3)] kv in auto)
qed

lemma object_entries_refs:
  assumes c: "closedUpTo n0 h" and v: "\<forall>b. v = VRef b \<longrightarrow> b < n0"
    and e: "(k, VRef b) \<in> set (object_entries h v)"
  shows "b < n0"
proof (cases v)
  case (VRef p)
  with v have "p < n0" by simp
  from refs_below_entries[OF closedUpTo_cell[OF c this]] e VRef show ?thesis
    by (simp add: object_entries_def)
next
  case (VStr s)
  with e have "VRef b \<in> set (map (\<lambda>c. VStr [c]) s)"
    by (auto simp: object_entries_def dest: set_zip_rightD)
  then show ?thesis by auto
qed (use e in \<open>auto simp: object_entries_def\<close>)

lemma propertiesPart_total:
  assumes T: "schemaTotal n0 n" and c: "closedUpTo n0 (heap st1)"
    and j: "n0 \<le> j" "j < length (heap st1)"
    and child: "\<forall>b. getProp (heap st1) j ''properties'' = VRef b \<longrightarrow> b < n0"
    and fuel: "card ({..<n0} - seen st1) < n"
  shows "\<exists>s. propertiesPart n j st1 = Some (Inr (), s) \<and> closedUpTo n0 (heap s)"
proof (cases "getProp (heap st1) j ''type'' = VStr ''object''
               \<and> truthy (getProp (heap st1) j ''properties'')")
  case True
  let ?m = "length (heap st1)"
  let ?st2 = "st1\<lparr>heap := heap st1 @ [Obj []]\<rparr>"
  let ?pv = "getProp (heap ?st2) j ''properties''"
  have pv: "?pv = getProp (heap st1) j ''properties''" using j(2) by (simp add: getProp_append)
  have c2: "closedUpTo n0 (heap ?st2)" using c by (simp add: closedUpTo_append)
  from c have m: "n0 \<le> ?m" by (simp add: closedUpTo_def)
  have refs: "\<forall>k b. (k, VRef b) \<in> set (object_entries (heap ?st2) ?pv) \<longrightarrow> b < n0"
    using object_entries_refs[OF c2] child pv by metis
  from mapProps_total[OF T m c2 refs] fuel obtain st3 where
    run: "mapProps n ?m (object_entries (heap ?st2) ?pv) ?st2 = Some (Inr (), st3)"
    and c3: "closedUpTo n0 (heap st3)" by auto
  from True run have
    "propertiesPart n j st1 = Some (Inr (), setPropS j ''properties'' (VRef ?m) st3)"
    by (simp add: propertiesPart_def allocS_eq)
  with closedUpTo_setPropS[OF c3 j(1)] show ?thesis by blast
next
  case False
  with c show ?thesis by (auto simp: propertiesPart_def)
qed

lemma itemsPart_total:
  assumes T: "schemaTotal n0 n" and c: "closedUpTo n0 (heap st4)"
    and j: "n0 \<le> j"
    and child: "\<forall>b. getProp (heap st4) j ''items'' = VRef b \<longrightarrow> b < n0"
    and fuel: "card ({..<n0} - seen st4) < n"
  shows "\<exists>s. itemsPart n j st4 = Some (Inr (), s) \<and> closedUpTo n0 (heap s)"
proof (cases "getProp (heap st4) j ''items''")
  case (VRef i)
  with child have i: "i < n0" by simp
  show ?thesis
  proof (cases "getProp (heap st4) j ''type'' = VStr ''array''")
    case True
    from schemaTotalD[OF T c i fuel] obtain k st5 where
      run: "mapSchema n (VRef i) st4 = Some (Inr (VRef k), st5)"
      and c5: "closedUpTo n0 (heap st5)" by blast
    from True VRef run have
      "itemsPart n j st4 = Some (Inr (), setPropS j ''items'' (VRef k) st5)"
      by (simp add: itemsPart_def)
    with closedUpTo_setPropS[OF c5 j] show ?thesis by blast
  next
    case False
    with VRef c show ?thesis by (simp add: itemsPart_def)
  qed
qed (use c in \<open>auto simp: itemsPart_def\<close>)

lemma getProp_same_cell:
  "j < length h \<Longrightarrow> j < length h' \<Longrightarrow> h' ! j = h ! j \<Longrightarrow> getProp h' j k = getProp h j k"
  by (simp add: getProp_def cell_def)

lemma propertiesPart_keeps:
  assumes run: "propertiesPart n j st1 = Some (x, s)"
    and j: "j < length (heap st1)" "\<not> isArr (heap st1 ! j)" and k: "k \<noteq> ''properties''"
  shows "getProp (heap s) j k = getProp (heap st1) j k"
proof (cases "getProp (heap st1) j ''type'' = VStr ''object''
               \<and> truthy (getProp (heap st1) j ''properties'')")
  case True
  let ?m = "length (heap st1)"
  let ?st2 = "st1\<lparr>heap := heap st1 @ [Obj []]\<rparr>"
  from run True have
    "bindR (mapProps n ?m
              (object_entries (heap ?st2) (getProp (heap ?st2) j ''properties'')) ?st2)
       (\<lambda>_ st3. Some (Inr (), setPropS j ''properties'' (VRef ?m) st3))
     = Some (x, s)"
    by (simp add: propertiesPart_def allocS_eq)
  then show ?thesis
  proof (cases rule: bindR_Some)
    case (thrown e)
    from mapProps_shape[OF mapSchema_shape thrown(1)] show ?thesis by simp
  next
    case (returned u st3)
    from mapProps_shape[OF mapSchema_shape returned(1)] have
      g: "grows {?m} (heap ?st2) (heap st3)" by (simp add: steps_def)
    have j2: "j < length (heap ?st2)" "\<not> isArr (heap ?st2 ! j)" "j \<notin> {?m}"
      using j by (simp_all add: nth_append)
    from grows_same[OF g j2(1) j2(3) j2(2)] have eq: "heap st3 ! j = heap st1 ! j"
      using j(1) by (simp add: nth_append)
    from g j2(1) have l3: "j < length (heap st3)" by (simp add: grows_def)
    have "getProp (heap st3) j k = getProp (heap st1) j k"
      by (rule getProp_same_cell[OF j(1) l3 eq])
    with returned(2) k show ?thesis
      by (auto simp: setPropS_def getProp_setProp_other)
  qed
next
  case False
  with run show ?thesis by (auto simp: propertiesPart_def)
qed

lemma card_unseen:
  fixes a n0 :: nat
  assumes "a < n0" "a \<notin> S" "card ({..<n0} - S) < Suc n"
  shows "card ({..<n0} - insert a S) < n"
proof -
  have "{..<n0} - insert a S = ({..<n0} - S) - {a}" by auto
  moreover have "a \<in> {..<n0} - S" using assms by simp
  moreover have "finite ({..<n0} - S)" by simp
  ultimately have "card ({..<n0} - insert a S) < card ({..<n0} - S)"
    by (metis card_Diff1_less)
  with assms(3) show ?thesis by simp
qed

lemma schemaTotal_step:
  assumes T: "schemaTotal n0 n"
  shows "schemaTotal n0 (Suc n)"
  unfolding schemaTotal_def
proof (intro allI impI)
  fix v and st :: mstate
  assume pre: "closedUpTo n0 (heap st) \<and> (\<forall>a. v = VRef a \<longrightarrow> a < n0)
                 \<and> card ({..<n0} - seen st) < Suc n"
  then have c: "closedUpTo n0 (heap st)" and fuel: "card ({..<n0} - seen st) < Suc n"
    by simp_all
  show "\<exists>r st'. mapSchema (Suc n) v st = Some (r, st') \<and> closedUpTo n0 (heap st')"
  proof (cases v)
    case (VRef a)
    with pre have a: "a < n0" by simp
    show ?thesis
    proof (cases "hasProp (heap st) a ''$ref'' \<or> a \<in> seen st")
      case True
      have "\<exists>d. mapSchema (Suc n) (VRef a) st = Some (genericObject (warn d st))"
      proof (cases "hasProp (heap st) a ''$ref''")
        case True
        then show ?thesis by (subst mapSchema_Suc_ref) (simp, blast)
      next
        case nr: False
        with True have "a \<in> seen st" by simp
        with nr show ?thesis by (subst mapSchema_Suc_ref) (simp, blast)
      qed
      then obtain d where "mapSchema (Suc n) (VRef a) st = Some (genericObject (warn d st))" ..
      with c VRef show ?thesis
        by (simp add: genericObject_eq warn_def closedUpTo_append del: mapSchema.simps)
    next
      case False
      let ?st0 = "st\<lparr>seen := insert a (seen st)\<rparr>"
      obtain j st1 where pc: "prepareCopy a ?st0 = (j, st1)" by (cases "prepareCopy a ?st0")
      note sh = prepareCopy_shape[OF pc, simplified]
      from c have n0: "n0 \<le> j" using sh(1) by (simp add: closedUpTo_def)
      have c1: "closedUpTo n0 (heap st1)" using prepareCopy_closed[OF pc] c by simp
      from False have nr: "\<not> hasProp (heap st) a ''$ref''" and ns: "a \<notin> seen st"
        by simp_all
      have f1: "card ({..<n0} - seen st1) < n"
        unfolding sh(5) by (rule card_unseen[OF a ns fuel])
      have look: "\<forall>b. getProp (heap st1) j k = VRef b \<longrightarrow> b < n0"
        if "k \<noteq> ''type''" "k \<notin> set removedKeys" for k
      proof (intro allI impI)
        fix b assume "getProp (heap st1) j k = VRef b"
        with prepareCopy_getProp[OF pc that] have
          "map_of (entries_of (cell (heap st) a)) k = Some (VRef b)"
          by (cases "map_of (entries_of (cell (heap st) a)) k") simp_all
        from refs_below_lookup[OF closedUpTo_cell[OF c a] this] show "b < n0" .
      qed
      have "\<forall>b. getProp (heap st1) j ''properties'' = VRef b \<longrightarrow> b < n0"
        by (rule look) (simp_all add: removedKeys_def)
      from propertiesPart_total[OF T c1 n0 sh(3) this f1] obtain s4 where
        p: "propertiesPart n j st1 = Some (Inr (), s4)" and c4: "closedUpTo n0 (heap s4)"
        by blast
      from propertiesPart_shape[OF mapSchema_shape p sh(3)] have
        seen4: "seen s4 = seen st1" by (simp add: steps_def)
      have "getProp (heap s4) j ''items'' = getProp (heap st1) j ''items''"
        by (rule propertiesPart_keeps[OF p sh(3) sh(4)]) simp
      moreover have "\<forall>b. getProp (heap st1) j ''items'' = VRef b \<longrightarrow> b < n0"
        by (rule look) (simp_all add: removedKeys_def)
      ultimately have "\<forall>b. getProp (heap s4) j ''items'' = VRef b \<longrightarrow> b < n0" by simp
      from itemsPart_total[OF T c4 n0 this] f1 seen4 obtain s6 where
        i: "itemsPart n j s4 = Some (Inr (), s6)" and c6: "closedUpTo n0 (heap s6)"
        by auto
      have fs: "fst (prepareCopy a ?st0) = j" "snd (prepareCopy a ?st0) = st1"
        using pc by simp_all
      have
        "mapSchema (Suc n) (VRef a) st = Some (Inr (VRef j), s6\<lparr>seen := seen s6 - {a}\<rparr>)"
        unfolding mapSchema_Suc_ref fs using nr ns p i by simp
      with c6 VRef show ?thesis by (simp del: mapSchema.simps)
    qed
  qed (use c in auto)
qed

lemma mapSchema_total: "schemaTotal n0 n"
proof (induction n)
  case 0
  show ?case by (simp add: schemaTotal_def)
next
  case (Suc n)
  then show ?case by (rule schemaTotal_step)
qed

section \<open>The schema mapper: the properties of an object node\<close>

lemma update_fresh: "k \<notin> fst ` set al \<Longrightarrow> AList.update k v al = al @ [(k, v)]"
  by (induction al) auto

lemma nth_setProp_other: "b \<noteq> a \<Longrightarrow> setProp a k v h ! b = h ! b"
  by (simp add: setProp_def split: hobj.splits)

lemma nth_setProp_same:
  "a < length h \<Longrightarrow> h ! a = Obj es \<Longrightarrow> k \<noteq> ''__proto__''
     \<Longrightarrow> setProp a k v h ! a = Obj (AList.update k v es)"
  by (simp add: setProp_def cell_def)

lemma nth_setProp_proto:
  "h ! a = Obj es \<Longrightarrow> ''__proto__'' \<notin> fst ` set es \<Longrightarrow> setProp a ''__proto__'' v h = h"
  by (cases "a < length h") (simp_all add: setProp_def cell_def)

lemma getProp_delProp_cell: "b \<noteq> a \<Longrightarrow> getProp (delProp a k h) b k' = getProp h b k'"
  by (simp add: getProp_def cell_delProp)

lemma getProp_fold_delProp_cell:
  "b \<noteq> a \<Longrightarrow> getProp (fold (delProp a) ks h) b k' = getProp h b k'"
  by (induction ks arbitrary: h) (simp_all add: getProp_delProp_cell)

text \<open>
  The type of the copy when the node has a string type other than \<open>integer\<close> and is
  not nullable: the straight-line part leaves it as it is.
\<close>

lemma prepareCopy_type:
  assumes pc: "prepareCopy a st = (j, st1)" and a: "a < length (heap st)"
    and t: "getProp (heap st) a ''type'' = VStr s" "s \<noteq> ''integer''"
    and nn: "\<not> truthy (getProp (heap st) a ''nullable'')"
  shows "getProp (heap st1) j ''type'' = VStr s"
proof -
  let ?h = "heap st"
  let ?h1 = "?h @ [Obj (entries_of (cell ?h a))]"
  let ?h2 = "(if getProp ?h1 a ''type'' = VStr ''integer''
                then setProp (length ?h) ''type'' (VStr ''number'') ?h1 else ?h1)"
  let ?h3 = "fold (delProp (length ?h)) removedKeys ?h2"
  let ?h4 = "(if truthy (getProp ?h3 a ''nullable'') then foldNullable (length ?h) ?h3 else ?h3)"
  from pc have "(length ?h, st\<lparr>heap := ?h4\<rparr>) = (j, st1)"
    unfolding prepareCopy_def Let_def .
  then have "length ?h = j \<and> st\<lparr>heap := ?h4\<rparr> = st1" by (rule iffD1[OF prod.inject])
  then have j: "j = length ?h" and st1: "heap st1 = ?h4" by auto
  have a1: "getProp ?h1 a ''type'' = VStr s" using a t(1) by (simp add: getProp_append)
  with t(2) have h2: "?h2 = ?h1" by simp
  have "getProp ?h3 a ''nullable'' = getProp ?h2 a ''nullable''"
    by (rule getProp_fold_delProp_cell) (use a in simp)
  also have "\<dots> = getProp ?h a ''nullable''" unfolding h2 using a by (simp add: getProp_append)
  finally have h4: "?h4 = ?h3" using nn by simp
  from t(1) obtain es where es: "cell ?h a = Obj es"
    by (cases "cell ?h a") (simp_all add: getProp_def)
  have "getProp ?h3 (length ?h) ''type'' = getProp ?h2 (length ?h) ''type''"
    by (rule getProp_fold_delProp_other) (simp add: removedKeys_def)
  also have "\<dots> = getProp ?h1 (length ?h) ''type''" unfolding h2 ..
  also have "\<dots> = getProp ?h a ''type''" using es by (simp add: getProp_def cell_def)
  finally show ?thesis using j st1 h4 t(1) by simp
qed

text \<open>
  An entry of the node's \<open>properties\<close> is carried over when its value is an object or a
  boolean and its key is not \<open>__proto__\<close>.  A carried entry goes to the same key: a
  boolean as it is, an object as the result of a nested call of the mapper.  That call is
  made with the seen set \<open>sn\<close>, in a state \<open>s1\<close> whose heap has at least \<open>lo\<close> cells and
  has grown from \<open>h0\<close> (every plain object of \<open>h0\<close> is unchanged in it), and the plain
  objects the call allocates are in the final heap \<open>hf\<close> as the call left them.
\<close>

definition keeps :: "val \<Rightarrow> bool" where
  "keeps v = (case v of VRef p \<Rightarrow> True | VBool b \<Rightarrow> True | _ \<Rightarrow> False)"

definition carried :: "string \<times> val \<Rightarrow> bool" where
  "carried kv = (keeps (snd kv) \<and> fst kv \<noteq> ''__proto__'')"

definition mappedEntry ::
  "nat \<Rightarrow> nat set \<Rightarrow> heap \<Rightarrow> nat \<Rightarrow> heap \<Rightarrow> string \<times> val \<Rightarrow> string \<times> val \<Rightarrow> bool" where
  "mappedEntry n sn h0 lo hf kv kr =
     (fst kr = fst kv \<and>
      (case snd kv of
         VBool b \<Rightarrow> snd kr = VBool b
       | VRef p \<Rightarrow>
           (\<exists>s1 s2 r. snd kr = VRef r
              \<and> mapSchema n (VRef p) s1 = Some (Inr (VRef r), s2)
              \<and> seen s1 = sn \<and> grows {} h0 (heap s1) \<and> lo \<le> length (heap s1)
              \<and> length (heap s1) \<le> r \<and> r < length (heap s2) \<and> length (heap s2) \<le> length hf
              \<and> (\<forall>b. length (heap s1) \<le> b \<and> b < length (heap s2) \<and> \<not> isArr (heap s2 ! b)
                     \<longrightarrow> hf ! b = heap s2 ! b))
       | _ \<Rightarrow> False))"

lemma grows_above:
  assumes g0: "grows {} h0 h" and g: "grows X h h'" and X: "\<forall>x\<in>X. length h0 \<le> x"
  shows "grows {} h0 h'"
proof -
  from g0 have "grows X h0 h" by (rule grows_mono) simp
  from grows_trans[OF this g] show ?thesis by (rule grows_mono) (use X in auto)
qed

lemma carried_iff: "carried (k, v) = (keeps v \<and> k \<noteq> ''__proto__'')"
  by (simp add: carried_def)

lemma mapProps_result:
  "mapProps n m es st = Some (Inr (), st') \<Longrightarrow> length h0 \<le> m \<Longrightarrow> m < lo
     \<Longrightarrow> lo \<le> length (heap st) \<Longrightarrow> grows {} h0 (heap st)
     \<Longrightarrow> heap st ! m = Obj acc \<Longrightarrow> ''__proto__'' \<notin> fst ` set acc
     \<Longrightarrow> distinct (map fst es) \<Longrightarrow> fst ` set es \<inter> fst ` set acc = {}
     \<Longrightarrow> \<exists>new. heap st' ! m = Obj (acc @ new)
            \<and> list_all2 (mappedEntry n (seen st) h0 lo (heap st')) (filter carried es) new"
proof (induction es arbitrary: st acc)
  case Nil
  then show ?case by simp
next
  case (Cons kv es)
  obtain key v where kv: "kv = (key, v)" by (cases kv)
  note run = Cons.prems(1) and m0 = Cons.prems(2) and mlo = Cons.prems(3)
    and lo = Cons.prems(4) and g0 = Cons.prems(5) and acc = Cons.prems(6)
    and np = Cons.prems(7)
  from Cons.prems(8) kv have d: "distinct (map fst es)" and knew: "key \<notin> fst ` set es"
    by auto
  from Cons.prems(9) kv have kacc: "key \<notin> fst ` set acc"
    and dis: "fst ` set es \<inter> fst ` set acc = {}" by auto
  from mlo lo have ml: "m < length (heap st)" by simp
  have step: "\<exists>new. heap st' ! m = Obj (acc @ (if key = ''__proto__'' then [] else [(key, r)]) @ new)
            \<and> list_all2 (mappedEntry n (seen st) h0 lo (heap st')) (filter carried es) new
            \<and> grows {m} (heap s1) (heap st')"
    if tl: "mapProps n m es (setPropS m key r s1) = Some (Inr (), st')"
      and s1: "lo \<le> length (heap s1)" "heap s1 ! m = Obj acc" "seen s1 = seen st"
         "grows {} h0 (heap s1)" for r s1
  proof -
    let ?acc' = "acc @ (if key = ''__proto__'' then [] else [(key, r)])"
    let ?s = "setPropS m key r s1"
    from mlo s1(1) have ml1: "m < length (heap s1)" by simp
    have c: "heap ?s ! m = Obj ?acc'"
    proof (cases "key = ''__proto__''")
      case True
      with s1(2) np show ?thesis by (simp add: setPropS_def nth_setProp_proto)
    next
      case False
      with s1(2) ml1 kacc show ?thesis
        by (simp add: setPropS_def nth_setProp_same update_fresh)
    qed
    have l: "lo \<le> length (heap ?s)" using s1(1) by (simp add: setPropS_def)
    have gs: "grows {m} (heap s1) (heap ?s)" by (simp add: setPropS_def)
    have g: "grows {} h0 (heap ?s)"
      by (rule grows_above[OF s1(4) gs]) (use m0 in simp)
    have np': "''__proto__'' \<notin> fst ` set ?acc'" using np by auto
    have dis': "fst ` set es \<inter> fst ` set ?acc' = {}" using dis knew by auto
    from Cons.IH[OF tl m0 mlo l g c np' d dis'] obtain new where
      new: "heap st' ! m = Obj (?acc' @ new)"
        "list_all2 (mappedEntry n (seen ?s) h0 lo (heap st')) (filter carried es) new"
      by blast
    from mapProps_shape[OF mapSchema_shape tl] have "grows {m} (heap ?s) (heap st')"
      by (simp add: steps_def)
    from grows_trans[OF gs this] new s1(3) show ?thesis by (simp add: setPropS_def)
  qed
  show ?case
  proof (cases v)
    case (VRef p)
    with run kv have
      "bindR (mapSchema n (VRef p) st) (\<lambda>r st'. mapProps n m es (setPropS m key r st'))
         = Some (Inr (), st')" by simp
    then show ?thesis
    proof (cases rule: bindR_Some)
      case (thrown e)
      then show ?thesis by simp
    next
      case (returned r s1)
      from schemaShapeD[OF mapSchema_shape returned(1)] obtain j where
        j: "r = VRef j" "length (heap st) \<le> j" "j < length (heap s1)"
        and stp: "steps {} st s1" by auto
      from stp have g: "grows {} (heap st) (heap s1)" and sn: "seen s1 = seen st"
        by (simp_all add: steps_def)
      from acc have na: "\<not> isArr (heap st ! m)" by simp
      from grows_same[OF g ml _ na] acc have c1: "heap s1 ! m = Obj acc" by simp
      from grows_length[OF g] lo have l1: "lo \<le> length (heap s1)" by simp
      have g1: "grows {} h0 (heap s1)" by (rule grows_trans[OF g0 g])
      from step[OF returned(2) l1 c1 sn g1] obtain new where
        new: "heap st' ! m = Obj (acc @ (if key = ''__proto__'' then [] else [(key, r)]) @ new)"
          "list_all2 (mappedEntry n (seen st) h0 lo (heap st')) (filter carried es) new"
          "grows {m} (heap s1) (heap st')" by blast
      have same: "heap st' ! b = heap s1 ! b"
        if "length (heap st) \<le> b \<and> b < length (heap s1) \<and> \<not> isArr (heap s1 ! b)" for b
        by (rule grows_same[OF new(3)]) (use that ml in auto)
      have "\<exists>s1 s2 r'. r = VRef r'
              \<and> mapSchema n (VRef p) s1 = Some (Inr (VRef r'), s2)
              \<and> seen s1 = seen st \<and> grows {} h0 (heap s1) \<and> lo \<le> length (heap s1)
              \<and> length (heap s1) \<le> r' \<and> r' < length (heap s2)
              \<and> length (heap s2) \<le> length (heap st')
              \<and> (\<forall>b. length (heap s1) \<le> b \<and> b < length (heap s2) \<and> \<not> isArr (heap s2 ! b)
                     \<longrightarrow> heap st' ! b = heap s2 ! b)"
        by (rule exI[of _ st], rule exI[of _ s1], rule exI[of _ j])
           (use returned(1) j g0 lo same grows_length[OF new(3)] in auto)
      then have "mappedEntry n (seen st) h0 lo (heap st') (key, VRef p) (key, r)"
        by (simp add: mappedEntry_def)
      moreover have "keeps (VRef p)" by (simp add: keeps_def)
      ultimately show ?thesis using new(1,2) unfolding kv VRef
        by (cases "key = ''__proto__''") (simp_all add: carried_iff)
    qed
  next
    case (VBool b)
    with run kv have "mapProps n m es (setPropS m key (VBool b) st) = Some (Inr (), st')"
      by simp
    from step[OF this lo acc _ g0] obtain new where
      new: "heap st' ! m = Obj (acc @ (if key = ''__proto__'' then [] else [(key, VBool b)]) @ new)"
        "list_all2 (mappedEntry n (seen st) h0 lo (heap st')) (filter carried es) new" by auto
    have "mappedEntry n (seen st) h0 lo (heap st') (key, VBool b) (key, VBool b)"
      by (simp add: mappedEntry_def)
    moreover have "keeps (VBool b)" by (simp add: keeps_def)
    ultimately show ?thesis using new unfolding kv VBool
      by (cases "key = ''__proto__''") (simp_all add: carried_iff)
  next
    case VUndefined
    with run kv have "mapProps n m es st = Some (Inr (), st')" by simp
    from Cons.IH[OF this m0 mlo lo g0 acc np d dis] kv VUndefined show ?thesis
      by (simp add: carried_iff keeps_def)
  next
    case VNull
    with run kv have "mapProps n m es st = Some (Inr (), st')" by simp
    from Cons.IH[OF this m0 mlo lo g0 acc np d dis] kv VNull show ?thesis
      by (simp add: carried_iff keeps_def)
  next
    case (VNum x)
    with run kv have "mapProps n m es st = Some (Inr (), st')" by simp
    from Cons.IH[OF this m0 mlo lo g0 acc np d dis] kv VNum show ?thesis
      by (simp add: carried_iff keeps_def)
  next
    case (VStr x)
    with run kv have "mapProps n m es st = Some (Inr (), st')" by simp
    from Cons.IH[OF this m0 mlo lo g0 acc np d dis] kv VStr show ?thesis
      by (simp add: carried_iff keeps_def)
  qed
qed

lemma itemsPart_keeps:
  assumes run: "itemsPart n j st4 = Some (x, s)"
    and j: "j < length (heap st4)" "\<not> isArr (heap st4 ! j)" and k: "k \<noteq> ''items''"
  shows "getProp (heap s) j k = getProp (heap st4) j k"
proof (cases "getProp (heap st4) j ''items''")
  case (VRef i)
  show ?thesis
  proof (cases "getProp (heap st4) j ''type'' = VStr ''array''")
    case True
    with run VRef have
      "bindR (mapSchema n (VRef i) st4)
         (\<lambda>r st5. Some (Inr (), setPropS j ''items'' r st5)) = Some (x, s)"
      by (simp add: itemsPart_def)
    then show ?thesis
    proof (cases rule: bindR_Some)
      case (thrown e)
      from schemaShapeD[OF mapSchema_shape thrown(1)] show ?thesis by blast
    next
      case (returned y st5)
      from schemaShapeD[OF mapSchema_shape returned(1)] have "steps {} st4 st5" by blast
      then have g: "grows {} (heap st4) (heap st5)" by (simp add: steps_def)
      from grows_same[OF g j(1) _ j(2)] have eq: "heap st5 ! j = heap st4 ! j" by simp
      from g j(1) have l5: "j < length (heap st5)" by (simp add: grows_def)
      have "getProp (heap st5) j k = getProp (heap st4) j k"
        by (rule getProp_same_cell[OF j(1) l5 eq])
      with returned(2) k show ?thesis
        by (auto simp: setPropS_def getProp_setProp_other)
    qed
  next
    case False
    with run VRef show ?thesis by (simp add: itemsPart_def)
  qed
qed (use run in \<open>auto simp: itemsPart_def\<close>)

lemma mappedEntry_keys:
  "list_all2 (mappedEntry n sn h0 lo hf) xs ys \<Longrightarrow> map fst ys = map fst xs"
  by (induction rule: list_all2_induct) (simp_all add: mappedEntry_def)

lemma mappedEntry_final:
  assumes "mappedEntry n sn h0 lo hf kv kr" "length hf \<le> length hf'"
    and "\<And>b. lo \<le> b \<Longrightarrow> b < length hf \<Longrightarrow> hf' ! b = hf ! b"
  shows "mappedEntry n sn h0 lo hf' kv kr"
proof (cases "snd kv")
  case (VRef p)
  with assms(1) obtain s1 s2 r where r: "fst kr = fst kv" "snd kr = VRef r"
    "mapSchema n (VRef p) s1 = Some (Inr (VRef r), s2)"
    "seen s1 = sn" "grows {} h0 (heap s1)" "lo \<le> length (heap s1)"
    "length (heap s1) \<le> r" "r < length (heap s2)" "length (heap s2) \<le> length hf"
    "\<forall>b. length (heap s1) \<le> b \<and> b < length (heap s2) \<and> \<not> isArr (heap s2 ! b)
         \<longrightarrow> hf ! b = heap s2 ! b"
    unfolding mappedEntry_def by auto
  have "\<forall>b. length (heap s1) \<le> b \<and> b < length (heap s2) \<and> \<not> isArr (heap s2 ! b)
         \<longrightarrow> hf' ! b = heap s2 ! b"
  proof (intro allI impI)
    fix b assume b: "length (heap s1) \<le> b \<and> b < length (heap s2) \<and> \<not> isArr (heap s2 ! b)"
    with r(6,9) have "hf' ! b = hf ! b" by (intro assms(3)) auto
    with r(10) b show "hf' ! b = heap s2 ! b" by simp
  qed
  with r(2-9) assms(2) have "\<exists>s1 s2 r. snd kr = VRef r
              \<and> mapSchema n (VRef p) s1 = Some (Inr (VRef r), s2)
              \<and> seen s1 = sn \<and> grows {} h0 (heap s1) \<and> lo \<le> length (heap s1)
              \<and> length (heap s1) \<le> r \<and> r < length (heap s2)
              \<and> length (heap s2) \<le> length hf'
              \<and> (\<forall>b. length (heap s1) \<le> b \<and> b < length (heap s2) \<and> \<not> isArr (heap s2 ! b)
                     \<longrightarrow> hf' ! b = heap s2 ! b)"
    by (intro exI[of _ s1] exI[of _ s2] exI[of _ r]) simp
  with r(1) VRef show ?thesis by (simp add: mappedEntry_def)
qed (use assms(1) in \<open>auto simp: mappedEntry_def\<close>)

lemma itemsPart_not_array:
  "getProp (heap st4) j ''type'' \<noteq> VStr ''array'' \<Longrightarrow> itemsPart n j st4 = Some (Inr (), st4)"
  by (simp add: itemsPart_def split: val.splits)


text \<open>An object node with a self-reference, a \<open>null\<close>, a boolean and a nullable integer.\<close>

definition objectNode :: mstate where
  "objectNode =
     \<lparr>heap = [Obj [(''type'', VStr ''object''), (''properties'', VRef 1)],
              Obj [(''self'', VRef 0), (''n'', VNull), (''b'', VBool True), (''i'', VRef 2)],
              Obj [(''type'', VStr ''integer''), (''nullable'', VBool True)]],
      seen = {}, log = []\<rparr>"

lemma objectNode_run:
  "(case mapSchema 4 (VRef 0) objectNode of
      Some (Inr (VRef j), st') \<Rightarrow>
        getProp (heap st') j ''type'' = VStr ''object''
        \<and> getProp (heap st') j ''properties'' = VRef 4
        \<and> heap st' ! 4 = Obj [(''self'', VRef 5), (''b'', VBool True), (''i'', VRef 6)]
    | _ \<Rightarrow> False)"
  by code_simp


text \<open>
  C10 as stated fails on an object-typed node that is nullable: folding \<open>nullable\<close> into
  the type comes first and makes the type the array \<open>['object', 'null']\<close>, so the loop
  over the properties is not entered.  The mapped node's \<open>properties\<close> is then the
  input's own object: the entry \<open>n: null\<close> is still there, and the entry \<open>a\<close> still
  holds the unmapped input node (its type is \<open>integer\<close>, not \<open>number\<close>).  It also fails
  for a carried value under the key \<open>__proto__\<close>, which does not become an own property
  of the new object.
\<close>

definition nullableObject :: mstate where
  "nullableObject =
     \<lparr>heap = [Obj [(''type'', VStr ''object''), (''nullable'', VBool True),
                   (''properties'', VRef 1)],
              Obj [(''n'', VNull), (''a'', VRef 2)],
              Obj [(''type'', VStr ''integer'')]],
      seen = {}, log = []\<rparr>"

definition protoKey :: mstate where
  "protoKey =
     \<lparr>heap = [Obj [(''type'', VStr ''object''), (''properties'', VRef 1)],
              Obj [(''__proto__'', VRef 2), (''b'', VBool False)],
              Obj [(''type'', VStr ''string'')]],
      seen = {}, log = []\<rparr>"


section \<open>The schema mapper: cycles and the input\<close>

text \<open>
  A value unfolds to a tree of depth at most \<open>n\<close>; it is a finite tree when it does so
  for some \<open>n\<close>, that is, when no chain of references that starts from it goes on for
  ever.
\<close>

fun unfolds :: "nat \<Rightarrow> heap \<Rightarrow> val \<Rightarrow> bool" where
  "unfolds 0 h (VRef a) = False"
| "unfolds (Suc n) h (VRef a) = list_all (unfolds n h) (vals (cell h a))"
| "unfolds n h v = True"

definition finiteTree :: "heap \<Rightarrow> val \<Rightarrow> bool" where
  "finiteTree h v = (\<exists>n. unfolds n h v)"

text \<open>
  The mapper replaces the \<open>properties\<close> of a node of type \<open>object\<close> and the \<open>items\<close>
  of a node of type \<open>array\<close> by mapped copies, and copies every other field by
  reference.  \<open>descendsInto h N a (k, v)\<close> says that the field \<open>k\<close> of the node \<open>a\<close> is
  replaced in this way and that the nodes the mapper is then called on are in \<open>N\<close>.
  \<open>typedDescents h N\<close> says of the nodes in \<open>N\<close> that every field that is not deleted is
  a finite tree or is replaced, so that every cycle runs through fields that are
  replaced; \<open>ownKeysDistinct\<close> is the fact that an object has one value per key.
\<close>

definition descendsInto :: "heap \<Rightarrow> nat set \<Rightarrow> nat \<Rightarrow> string \<times> val \<Rightarrow> bool" where
  "descendsInto h N a kv =
     (\<not> truthy (getProp h a ''nullable'') \<and>
      ((fst kv = ''properties'' \<and> getProp h a ''type'' = VStr ''object''
          \<and> (\<forall>q. VRef q \<in> snd ` set (object_entries h (snd kv)) \<longrightarrow> q \<in> N))
       \<or> (fst kv = ''items'' \<and> getProp h a ''type'' = VStr ''array''
          \<and> (\<forall>q. snd kv = VRef q \<longrightarrow> q \<in> N))))"

definition typedDescents :: "heap \<Rightarrow> nat set \<Rightarrow> bool" where
  "typedDescents h N =
     (\<forall>a\<in>N. a < length h \<and>
        (hasProp h a ''$ref'' \<or>
         (\<forall>kv\<in>set (entries_of (cell h a)).
            fst kv \<in> set removedKeys \<or> finiteTree h (snd kv) \<or> descendsInto h N a kv)))"

definition ownKeysDistinct :: "heap \<Rightarrow> bool" where
  "ownKeysDistinct h = (\<forall>c\<in>set h. distinct (map fst (entries_of c)))"

text \<open>
  A node without a type whose property \<open>self\<close> is the node itself, and the diamond
  \<open>{type: object, properties: {left: T, right: T, self: S}}\<close> over one shared node \<open>T\<close>.
\<close>

definition untypedCycle :: mstate where
  "untypedCycle =
     \<lparr>heap = [Obj [(''properties'', VRef 1)], Obj [(''self'', VRef 0)]],
      seen = {}, log = []\<rparr>"

definition diamond :: mstate where
  "diamond =
     \<lparr>heap = [Obj [(''type'', VStr ''object''), (''properties'', VRef 1)],
              Obj [(''left'', VRef 2), (''right'', VRef 2), (''self'', VRef 0)],
              Obj [(''type'', VStr ''string'')]],
      seen = {}, log = []\<rparr>"

definition nullableUnion :: mstate where
  "nullableUnion =
     \<lparr>heap = [Obj [(''type'', VRef 1), (''nullable'', VBool True)], Arr [VStr ''string'']],
      seen = {}, log = []\<rparr>"

text \<open>
  For the proofs: the finite trees all of whose cells are in a set \<open>B\<close> of addresses.
\<close>

inductive treeIn :: "heap \<Rightarrow> nat set \<Rightarrow> val \<Rightarrow> bool" for h :: heap and B :: "nat set" where
  leaf: "\<forall>a. v \<noteq> VRef a \<Longrightarrow> treeIn h B v"
| node: "a \<in> B \<Longrightarrow> \<forall>v\<in>set (vals (cell h a)). treeIn h B v \<Longrightarrow> treeIn h B (VRef a)"

lemma unfolds_nonref: "\<forall>a. v \<noteq> VRef a \<Longrightarrow> unfolds n h v"
  by (cases v) simp_all

lemma unfolds_mono: "unfolds n h v \<Longrightarrow> n \<le> m \<Longrightarrow> unfolds m h v"
proof (induction n arbitrary: m v)
  case 0
  then show ?case by (cases v) simp_all
next
  case (Suc n)
  show ?case
  proof (cases v)
    case (VRef a)
    from Suc.prems(2) obtain m' where m: "m = Suc m'" "n \<le> m'" by (cases m) simp_all
    from Suc.prems(1) VRef have "\<forall>w\<in>set (vals (cell h a)). unfolds n h w"
      by (simp add: list_all_iff)
    with Suc.IH m(2) have "\<forall>w\<in>set (vals (cell h a)). unfolds m' h w" by blast
    with VRef m(1) show ?thesis by (simp add: list_all_iff)
  qed simp_all
qed

lemma unfolds_bound: "\<forall>v\<in>set xs. \<exists>n. unfolds n h v \<Longrightarrow> \<exists>N. \<forall>v\<in>set xs. unfolds N h v"
proof (induction xs)
  case Nil
  show ?case by simp
next
  case (Cons x xs)
  from Cons.prems obtain n where n: "unfolds n h x" by auto
  from Cons.IH Cons.prems obtain N where N: "\<forall>v\<in>set xs. unfolds N h v" by auto
  have "unfolds (max n N) h x" by (rule unfolds_mono[OF n]) simp
  moreover have "\<forall>v\<in>set xs. unfolds (max n N) h v"
    using N unfolds_mono[of N h _ "max n N"] by auto
  ultimately show ?case by (intro exI[of _ "max n N"]) simp
qed

lemma treeIn_finiteTree: "treeIn h B v \<Longrightarrow> finiteTree h v"
proof (induction rule: treeIn.induct)
  case (leaf v)
  then have "unfolds 0 h v" by (rule unfolds_nonref)
  then show ?case unfolding finiteTree_def ..
next
  case (node a)
  then have "\<forall>v\<in>set (vals (cell h a)). \<exists>n. unfolds n h v" by (simp add: finiteTree_def)
  from unfolds_bound[OF this] obtain N where "\<forall>v\<in>set (vals (cell h a)). unfolds N h v" ..
  then have "unfolds (Suc N) h (VRef a)" by (simp add: list_all_iff)
  then show ?case unfolding finiteTree_def ..
qed

lemma unfolds_treeIn:
  "unfolds n h v \<Longrightarrow> closedUpTo n0 h \<Longrightarrow> \<forall>a. v = VRef a \<longrightarrow> a < n0 \<Longrightarrow> treeIn h {..<n0} v"
proof (induction n arbitrary: v)
  case 0
  then show ?case by (cases v) (auto intro: treeIn.leaf)
next
  case (Suc n)
  show ?case
  proof (cases v)
    case (VRef a)
    with Suc.prems(3) have a: "a < n0" by simp
    from closedUpTo_cell[OF Suc.prems(2) a] have rb: "refs_below n0 (cell h a)" .
    have "\<forall>w\<in>set (vals (cell h a)). treeIn h {..<n0} w"
    proof
      fix w assume w: "w \<in> set (vals (cell h a))"
      with Suc.prems(1) VRef have "unfolds n h w" by (simp add: list_all_iff)
      moreover from rb w have "\<forall>b. w = VRef b \<longrightarrow> b < n0" by (auto simp: refs_below_def)
      ultimately show "treeIn h {..<n0} w" by (rule Suc.IH[OF _ Suc.prems(2)])
    qed
    with a VRef show ?thesis by (auto intro: treeIn.node)
  qed (auto intro: treeIn.leaf)
qed

lemma treeIn_mono: "treeIn h B v \<Longrightarrow> B \<subseteq> C \<Longrightarrow> treeIn h C v"
  by (induction rule: treeIn.induct) (auto intro: treeIn.intros)

lemma treeIn_compat:
  assumes "treeIn h B v"
    and "\<And>a w. a \<in> B \<Longrightarrow> w \<in> set (vals (cell h' a))
           \<Longrightarrow> w \<in> set (vals (cell h a)) \<or> (\<forall>b. w \<noteq> VRef b)"
  shows "treeIn h' B v"
  using assms(1)
proof (induction rule: treeIn.induct)
  case (leaf v)
  then show ?case by (rule treeIn.leaf)
next
  case (node a)
  have "\<forall>w\<in>set (vals (cell h' a)). treeIn h' B w"
  proof
    fix w assume "w \<in> set (vals (cell h' a))"
    from assms(2)[OF node.hyps(1) this] node.IH show "treeIn h' B w"
      by (auto intro: treeIn.leaf)
  qed
  with node.hyps(1) show ?case by (rule treeIn.node)
qed

lemma grows_vals:
  assumes g: "grows X h h'" and a: "a < length h" "a \<notin> X"
    and w: "w \<in> set (vals (h' ! a))"
  shows "w \<in> set (vals (h ! a)) \<or> (\<forall>b. w \<noteq> VRef b)"
proof (cases "h ! a")
  case (Obj es)
  with grows_same[OF g a] w show ?thesis by simp
next
  case (Arr xs)
  from grows_arr[OF g a(1) Arr] w Arr show ?thesis by auto
qed

lemma treeIn_grows:
  assumes t: "treeIn h B v" and g: "grows X h h'"
    and B: "B \<subseteq> {..<length h}" "B \<inter> X = {}"
  shows "treeIn h' B v"
proof (rule treeIn_compat[OF t])
  fix a w assume a: "a \<in> B" and w: "w \<in> set (vals (cell h' a))"
  from a B have al: "a < length h" "a \<notin> X" by auto
  with grows_length[OF g] have "cell h' a = h' ! a" "cell h a = h ! a" by (simp_all add: cell_def)
  with grows_vals[OF g al] w show "w \<in> set (vals (cell h a)) \<or> (\<forall>b. w \<noteq> VRef b)" by simp
qed

lemma update_mem:
  "kv \<in> set (AList.update k0 v0 es) \<Longrightarrow> kv = (k0, v0) \<or> kv \<in> set es"
  by (induction es) (auto split: if_splits)

lemma update_mem_distinct:
  "distinct (map fst es) \<Longrightarrow> kv \<in> set (AList.update k0 v0 es)
     \<Longrightarrow> kv = (k0, v0) \<or> (fst kv \<noteq> k0 \<and> kv \<in> set es)"
  by (induction es) (auto split: if_splits)

lemma delete_mem: "kv \<in> set (AList.delete k0 es) \<Longrightarrow> fst kv \<noteq> k0 \<and> kv \<in> set es"
  by (induction es) (auto split: if_splits)

lemma snd_entries: "snd ` set (entries_of c) = set (vals c)"
proof (cases c)
  case (Arr xs)
  have "snd ` set (zip (map dec [0..<length xs]) xs)
          = set (map snd (zip (map dec [0..<length xs]) xs))" by (simp only: set_map)
  also have "\<dots> = set xs" by (subst map_snd_zip) simp_all
  finally show ?thesis using Arr by simp
qed simp

lemma distinct_entries_Arr: "distinct (map fst (entries_of (Arr xs)))"
proof -
  have "map fst (zip (map dec [0..<length xs]) xs) = map dec [0..<length xs]"
    by (simp add: map_fst_zip)
  moreover have "distinct (map dec [0..<length xs])"
    by (simp add: distinct_map inj_on_def dec_inj)
  ultimately show ?thesis by simp
qed

lemma entries_Arr_append:
  assumes "kv \<in> set (entries_of (Arr (xs @ ys)))"
  shows "kv \<in> set (entries_of (Arr xs)) \<or> snd kv \<in> set ys"
proof -
  from assms obtain i where i: "i < length (xs @ ys)" "kv = (dec i, (xs @ ys) ! i)"
    by (auto simp: in_set_zip)
  show ?thesis
  proof (cases "i < length xs")
    case True
    with i(2) have "kv = (dec i, xs ! i)" by (simp add: nth_append)
    with True have "kv \<in> set (entries_of (Arr xs))"
      by (auto simp: in_set_zip intro!: exI[of _ i])
    then show ?thesis ..
  next
    case False
    with i have "snd kv = ys ! (i - length xs)" "i - length xs < length ys"
      by (simp_all add: nth_append)
    then show ?thesis by simp
  qed
qed

lemma grows_entries:
  assumes g: "grows X h h'" and a: "a < length h" "a \<notin> X"
    and kv: "kv \<in> set (entries_of (h' ! a))"
  shows "kv \<in> set (entries_of (h ! a)) \<or> (\<forall>b. snd kv \<noteq> VRef b)"
proof (cases "h ! a")
  case (Obj es)
  with grows_same[OF g a] kv show ?thesis by simp
next
  case (Arr xs)
  from grows_arr[OF g a(1) Arr] obtain ys where
    ys: "h' ! a = Arr (xs @ ys)" "\<forall>y\<in>set ys. \<forall>b. y \<noteq> VRef b" by blast
  from entries_Arr_append[OF kv[unfolded ys(1)]] ys(2) Arr show ?thesis by auto
qed

lemma getProp_grows:
  assumes g: "grows X h h'" and a: "a < length h" "a \<notin> X"
  shows "getProp h' a k = getProp h a k"
proof (cases "h ! a")
  case (Obj es)
  from grows_same[OF g a] Obj have "h' ! a = h ! a" by simp
  with a(1) grows_length[OF g] show ?thesis by (simp add: getProp_def cell_def)
next
  case (Arr xs)
  from grows_arr[OF g a(1) Arr] Arr a(1) grows_length[OF g] show ?thesis
    by (auto simp: getProp_def cell_def)
qed

lemma hasProp_grows:
  assumes g: "grows X h h'" and a: "a < length h" "a \<notin> X"
  shows "hasProp h' a k = hasProp h a k"
proof (cases "h ! a")
  case (Obj es)
  from grows_same[OF g a] Obj have "h' ! a = h ! a" by simp
  with a(1) grows_length[OF g] show ?thesis by (simp add: hasProp_def cell_def)
next
  case (Arr xs)
  from grows_arr[OF g a(1) Arr] Arr a(1) grows_length[OF g] show ?thesis
    by (auto simp: hasProp_def cell_def)
qed

lemma object_entries_grows:
  assumes g: "grows X h h'" and v: "\<forall>p. v = VRef p \<longrightarrow> p < length h \<and> p \<notin> X"
    and q: "VRef q \<in> snd ` set (object_entries h' v)"
  shows "VRef q \<in> snd ` set (object_entries h v)"
proof (cases v)
  case (VRef p)
  with v have p: "p < length h" "p \<notin> X" by simp_all
  with grows_length[OF g] have c: "cell h' p = h' ! p" "cell h p = h ! p"
    by (simp_all add: cell_def)
  from q VRef c obtain kv where kv: "kv \<in> set (entries_of (h' ! p))" "snd kv = VRef q"
    by (auto simp: object_entries_def)
  from grows_entries[OF g p kv(1)] kv(2) have "kv \<in> set (entries_of (h ! p))" by auto
  with kv(2) VRef c show ?thesis by (force simp: object_entries_def)
qed (use q in \<open>auto simp: object_entries_def\<close>)

text \<open>
  The invariant of a traversal over a heap whose first \<open>n0\<close> cells are the document:
  \<open>T\<close> are nodes that are finite trees, \<open>N\<close> the nodes the mapper may be called on.
\<close>

definition fieldOK :: "nat set \<Rightarrow> nat set \<Rightarrow> heap \<Rightarrow> nat \<Rightarrow> string \<times> val \<Rightarrow> bool" where
  "fieldOK T N h a kv =
     (fst kv \<in> set removedKeys \<or> (\<forall>q. snd kv = VRef q \<longrightarrow> q \<in> T) \<or> descendsInto h N a kv)"

definition traversal :: "nat \<Rightarrow> nat set \<Rightarrow> nat set \<Rightarrow> heap \<Rightarrow> bool" where
  "traversal n0 T N h =
     (closedUpTo n0 h \<and> T \<subseteq> N
      \<and> (\<forall>a<n0. distinct (map fst (entries_of (h ! a))))
      \<and> (\<forall>a\<in>T. treeIn h {..<n0} (VRef a) \<and> (\<forall>q. VRef q \<in> set (vals (h ! a)) \<longrightarrow> q \<in> T))
      \<and> (\<forall>a\<in>N. a < n0 \<and>
           (hasProp h a ''$ref'' \<or> (\<forall>kv\<in>set (entries_of (h ! a)). fieldOK T N h a kv))))"

lemma traversal_grows:
  assumes tr: "traversal n0 T N h" and g: "grows X h h'" and X: "\<forall>x\<in>X. n0 \<le> x"
  shows "traversal n0 T N h'"
proof -
  from tr have c: "closedUpTo n0 h" and TN: "T \<subseteq> N"
    and d: "\<forall>a<n0. distinct (map fst (entries_of (h ! a)))"
    and t: "\<forall>a\<in>T. treeIn h {..<n0} (VRef a) \<and> (\<forall>q. VRef q \<in> set (vals (h ! a)) \<longrightarrow> q \<in> T)"
    and n: "\<forall>a\<in>N. a < n0 \<and>
           (hasProp h a ''$ref'' \<or> (\<forall>kv\<in>set (entries_of (h ! a)). fieldOK T N h a kv))"
    by (simp_all add: traversal_def)
  from c have n0: "n0 \<le> length h" by (simp add: closedUpTo_def)
  have below: "a < length h \<and> a \<notin> X" if "a < n0" for a using that n0 X by auto
  have c': "closedUpTo n0 h'"
    unfolding closedUpTo_def
  proof (intro conjI allI impI)
    from n0 grows_length[OF g] show "n0 \<le> length h'" by simp
    fix a assume a: "a < n0"
    from c a have rb: "refs_below n0 (h ! a)" by (simp add: closedUpTo_def)
    show "refs_below n0 (h' ! a)"
      unfolding refs_below_def
    proof (intro allI impI)
      fix b assume "VRef b \<in> set (vals (h' ! a))"
      from grows_vals[OF g _ _ this] below[OF a] have "VRef b \<in> set (vals (h ! a))" by auto
      with rb show "b < n0" by (simp add: refs_below_def)
    qed
  qed
  have d': "\<forall>a<n0. distinct (map fst (entries_of (h' ! a)))"
  proof (intro allI impI)
    fix a assume a: "a < n0"
    show "distinct (map fst (entries_of (h' ! a)))"
    proof (cases "h ! a")
      case (Obj es)
      from grows_same[OF g] below[OF a] Obj have "h' ! a = h ! a" by simp
      with d a show ?thesis by simp
    next
      case (Arr xs)
      from grows_arr[OF g _ Arr] below[OF a] obtain ys where "h' ! a = Arr (xs @ ys)" by blast
      then show ?thesis by (simp only: distinct_entries_Arr)
    qed
  qed
  have B: "{..<n0} \<subseteq> {..<length h}" "{..<n0} \<inter> X = {}" using n0 X by auto
  have t': "\<forall>a\<in>T. treeIn h' {..<n0} (VRef a) \<and> (\<forall>q. VRef q \<in> set (vals (h' ! a)) \<longrightarrow> q \<in> T)"
  proof (intro ballI conjI allI impI)
    fix a assume a: "a \<in> T"
    with t have "treeIn h {..<n0} (VRef a)" by simp
    then show "treeIn h' {..<n0} (VRef a)" by (rule treeIn_grows[OF _ g B])
    fix q assume q: "VRef q \<in> set (vals (h' ! a))"
    from a TN n have "a < n0" by auto
    from grows_vals[OF g _ _ q] below[OF this] have "VRef q \<in> set (vals (h ! a))" by auto
    with t a show "q \<in> T" by simp
  qed
  have n': "\<forall>a\<in>N. a < n0 \<and>
           (hasProp h' a ''$ref'' \<or> (\<forall>kv\<in>set (entries_of (h' ! a)). fieldOK T N h' a kv))"
  proof (intro ballI conjI)
    fix a assume a: "a \<in> N"
    with n show a0: "a < n0" by simp
    note al = below[OF a0]
    from al have al1: "a < length h" and al2: "a \<notin> X" by simp_all
    show "hasProp h' a ''$ref'' \<or> (\<forall>kv\<in>set (entries_of (h' ! a)). fieldOK T N h' a kv)"
    proof (cases "hasProp h a ''$ref''")
      case True
      with hasProp_grows[OF g al1 al2] show ?thesis by simp
    next
      case False
      with n a have f: "\<forall>kv\<in>set (entries_of (h ! a)). fieldOK T N h a kv" by auto
      have "\<forall>kv\<in>set (entries_of (h' ! a)). fieldOK T N h' a kv"
      proof
        fix kv assume kv: "kv \<in> set (entries_of (h' ! a))"
        from grows_entries[OF g al1 al2 kv]
        show "fieldOK T N h' a kv"
        proof
          assume old: "kv \<in> set (entries_of (h ! a))"
          with f have ok: "fieldOK T N h a kv" by simp
          from old have "snd kv \<in> set (vals (h ! a))"
            using snd_entries[of "h ! a"] by force
          with c a0 have cl: "\<forall>p. snd kv = VRef p \<longrightarrow> p < n0"
            by (auto simp: closedUpTo_def refs_below_def)
          have "descendsInto h' N a kv" if di: "descendsInto h N a kv"
          proof -
            have oe: "\<forall>q. VRef q \<in> snd ` set (object_entries h' (snd kv))
                       \<longrightarrow> VRef q \<in> snd ` set (object_entries h (snd kv))"
            proof (intro allI impI)
              fix q assume "VRef q \<in> snd ` set (object_entries h' (snd kv))"
              then show "VRef q \<in> snd ` set (object_entries h (snd kv))"
                by (rule object_entries_grows[OF g, rotated]) (use cl below in auto)
            qed
            from di oe show ?thesis
              unfolding descendsInto_def getProp_grows[OF g al1 al2] by blast
          qed
          with ok show ?thesis unfolding fieldOK_def by blast
        next
          assume "\<forall>b. snd kv \<noteq> VRef b"
          then show ?thesis by (simp add: fieldOK_def)
        qed
      qed
      then show ?thesis ..
    qed
  qed
  from c' TN d' t' n' show ?thesis by (simp add: traversal_def)
qed

text \<open>The fields of the copy after the straight-line part of the \<open>try\<close> block.\<close>

lemma nth_delProp_same:
  "a < length h \<Longrightarrow> h ! a = Obj es \<Longrightarrow> delProp a k h ! a = Obj (AList.delete k es)"
  by (simp add: delProp_def cell_def)

lemma fold_delProp_fields:
  "a < length h \<Longrightarrow> h ! a = Obj es \<Longrightarrow> distinct (map fst es)
     \<Longrightarrow> \<exists>es'. fold (delProp a) ks h ! a = Obj es' \<and> distinct (map fst es')
            \<and> (\<forall>kv\<in>set es'. kv \<in> set es \<and> fst kv \<notin> set ks)"
proof (induction ks arbitrary: h es)
  case Nil
  then show ?case by simp
next
  case (Cons k ks)
  have c: "delProp a k h ! a = Obj (AList.delete k es)"
    by (rule nth_delProp_same[OF Cons.prems(1,2)])
  have l: "a < length (delProp a k h)" using Cons.prems(1) by simp
  have d: "distinct (map fst (AList.delete k es))"
    by (rule distinct_delete[OF Cons.prems(3)])
  from Cons.IH[OF l c d] obtain es' where
    es': "fold (delProp a) ks (delProp a k h) ! a = Obj es'" "distinct (map fst es')"
      "\<forall>kv\<in>set es'. kv \<in> set (AList.delete k es) \<and> fst kv \<notin> set ks" by blast
  from es'(3) have "\<forall>kv\<in>set es'. kv \<in> set es \<and> fst kv \<notin> set (k # ks)"
    by (auto dest: delete_mem)
  with es'(1,2) show ?case by auto
qed

lemma setProp_fields:
  assumes "j < length h" "h ! j = Obj F" "distinct (map fst F)"
  shows "\<exists>F'. setProp j k v h ! j = Obj F' \<and> distinct (map fst F')
           \<and> (\<forall>kv\<in>set F'. kv = (k, v) \<or> (fst kv \<noteq> k \<and> kv \<in> set F) \<or> (k = ''__proto__'' \<and> kv \<in> set F))"
proof (cases "k = ''__proto__'' \<and> k \<notin> fst ` set F")
  case True
  then have "k = ''__proto__''" "k \<notin> fst ` set F" by blast+
  with assms(1,2) have "setProp j k v h = h" by (simp add: setProp_def cell_def)
  with assms True show ?thesis by auto
next
  case False
  with assms have "setProp j k v h ! j = Obj (AList.update k v F)"
    by (auto simp: setProp_def cell_def)
  moreover have "distinct (map fst (AList.update k v F))" by (rule distinct_update[OF assms(3)])
  moreover have "\<forall>kv\<in>set (AList.update k v F). kv = (k, v) \<or> (fst kv \<noteq> k \<and> kv \<in> set F)"
    using update_mem_distinct[OF assms(3)] by blast
  ultimately show ?thesis by blast
qed

definition freshType :: "heap \<Rightarrow> nat \<Rightarrow> string \<times> val \<Rightarrow> bool" where
  "freshType h j kv =
     (fst kv = ''type'' \<and>
      (\<forall>q. snd kv = VRef q \<longrightarrow>
         j < q \<and> q < length h \<and> (\<exists>s. h ! q = Arr [VStr s, VStr ''null''])))"

lemma setType_fields:
  assumes j: "j < length h" and c: "h ! j = Obj F" and d: "distinct (map fst F)"
    and f: "freshType (setProp j ''type'' v h) j (''type'', v)"
  shows "\<exists>F'. setProp j ''type'' v h ! j = Obj F' \<and> distinct (map fst F')
           \<and> (\<forall>kv\<in>set F'. kv \<in> set F \<or> freshType (setProp j ''type'' v h) j kv)"
proof -
  from setProp_fields[OF j c d, of "''type''" v] obtain F' where
    F': "setProp j ''type'' v h ! j = Obj F'" "distinct (map fst F')"
      "\<forall>kv\<in>set F'. kv = (''type'', v) \<or> (fst kv \<noteq> ''type'' \<and> kv \<in> set F)"
    by auto
  have "\<forall>kv\<in>set F'. kv \<in> set F \<or> freshType (setProp j ''type'' v h) j kv"
  proof
    fix kv assume "kv \<in> set F'"
    with F'(3) have "kv = (''type'', v) \<or> kv \<in> set F" by blast
    with f show "kv \<in> set F \<or> freshType (setProp j ''type'' v h) j kv" by blast
  qed
  with F'(1,2) show ?thesis by (intro exI[of _ F']) simp
qed

lemma same_fields:
  assumes "h' ! j = Obj F" "distinct (map fst F)"
  shows "\<exists>F'. h' ! j = Obj F' \<and> distinct (map fst F')
           \<and> (\<forall>kv\<in>set F'. kv \<in> set F \<or> freshType h' j kv)"
  using assms by (intro exI[of _ F]) simp

lemma foldNullable_fields:
  assumes j: "j < length h" and c: "h ! j = Obj F" and d: "distinct (map fst F)"
  shows "\<exists>F'. foldNullable j h ! j = Obj F' \<and> distinct (map fst F')
           \<and> (\<forall>kv\<in>set F'. kv \<in> set F \<or> freshType (foldNullable j h) j kv)"
proof -
  have null: "\<exists>F'. setProp j ''type'' (VStr ''null'') h ! j = Obj F' \<and> distinct (map fst F')
           \<and> (\<forall>kv\<in>set F'. kv \<in> set F
                  \<or> freshType (setProp j ''type'' (VStr ''null'') h) j kv)"
    by (rule setType_fields[OF j c d]) (simp add: freshType_def)
  show ?thesis
  proof (cases "getProp h j ''type''")
    case (VRef t)
    show ?thesis
    proof (cases "cell h t")
      case (Obj es)
      with VRef have "foldNullable j h = h" by (simp add: foldNullable_def)
      then show ?thesis using same_fields[OF c d] by simp
    next
      case (Arr xs)
      with j c have "t \<noteq> j" by (auto simp: cell_def)
      then have "foldNullable j h ! j = Obj F"
        using VRef Arr c by (simp add: foldNullable_def)
      from same_fields[OF this d] show ?thesis .
    qed
  next
    case (VStr s)
    let ?h1 = "h @ [Arr [VStr s, VStr ''null'']]"
    let ?h' = "setProp j ''type'' (VRef (length h)) ?h1"
    from VStr have f: "foldNullable j h = ?h'" by (simp add: foldNullable_def)
    have j1: "j < length ?h1" "?h1 ! j = Obj F" using j c by (simp_all add: nth_append)
    have a: "?h' ! length h = Arr [VStr s, VStr ''null'']"
      using j by (simp add: nth_setProp_other)
    have "freshType ?h' j (''type'', VRef (length h))"
      using j a by (simp add: freshType_def)
    from setType_fields[OF j1 d this] show ?thesis unfolding f .
  next
    case VUndefined
    then have "foldNullable j h = setProp j ''type'' (VStr ''null'') h"
      by (simp add: foldNullable_def)
    with null show ?thesis by simp
  next
    case VNull
    then have "foldNullable j h = setProp j ''type'' (VStr ''null'') h"
      by (simp add: foldNullable_def)
    with null show ?thesis by simp
  next
    case (VBool b)
    show ?thesis
    proof (cases b)
      case True
      with VBool have "foldNullable j h = h" by (simp add: foldNullable_def)
      then show ?thesis using same_fields[OF c d] by simp
    next
      case False
      with VBool have "foldNullable j h = setProp j ''type'' (VStr ''null'') h"
        by (simp add: foldNullable_def)
      with null show ?thesis by simp
    qed
  next
    case (VNum x)
    show ?thesis
    proof (cases "x = 0")
      case False
      with VNum have "foldNullable j h = h" by (simp add: foldNullable_def)
      then show ?thesis using same_fields[OF c d] by simp
    next
      case True
      with VNum have "foldNullable j h = setProp j ''type'' (VStr ''null'') h"
        by (simp add: foldNullable_def)
      with null show ?thesis by simp
    qed
  qed
qed

lemma prepareCopy_fields:
  assumes pc: "prepareCopy a st = (j, st1)"
    and d: "distinct (map fst (entries_of (cell (heap st) a)))"
  shows "\<exists>F. heap st1 ! j = Obj F \<and> distinct (map fst F)
           \<and> (\<forall>kv\<in>set F. (kv \<in> set (entries_of (cell (heap st) a)) \<and> fst kv \<notin> set removedKeys)
                          \<or> freshType (heap st1) j kv)"
proof -
  let ?h = "heap st"
  let ?E = "entries_of (cell ?h a)"
  let ?h1 = "?h @ [Obj ?E]"
  let ?h2 = "(if getProp ?h1 a ''type'' = VStr ''integer''
                then setProp (length ?h) ''type'' (VStr ''number'') ?h1 else ?h1)"
  let ?h3 = "fold (delProp (length ?h)) removedKeys ?h2"
  let ?h4 = "(if truthy (getProp ?h3 a ''nullable'') then foldNullable (length ?h) ?h3 else ?h3)"
  from pc have "(length ?h, st\<lparr>heap := ?h4\<rparr>) = (j, st1)"
    unfolding prepareCopy_def Let_def .
  then have "length ?h = j \<and> st\<lparr>heap := ?h4\<rparr> = st1" by (rule iffD1[OF prod.inject])
  then have j: "j = length ?h" and st1: "heap st1 = ?h4" by auto
  have j1: "length ?h < length ?h1" "?h1 ! length ?h = Obj ?E" by simp_all
  have "\<exists>F2. ?h2 ! length ?h = Obj F2 \<and> distinct (map fst F2)
          \<and> (\<forall>kv\<in>set F2. kv \<in> set ?E \<or> (fst kv = ''type'' \<and> (\<forall>q. snd kv \<noteq> VRef q)))"
  proof (cases "getProp ?h1 a ''type'' = VStr ''integer''")
    case True
    from setProp_fields[OF j1 d, of "''type''" "VStr ''number''"] obtain F' where
      F': "setProp (length ?h) ''type'' (VStr ''number'') ?h1 ! length ?h = Obj F'"
        "distinct (map fst F')"
        "\<forall>kv\<in>set F'. kv = (''type'', VStr ''number'') \<or> (fst kv \<noteq> ''type'' \<and> kv \<in> set ?E)"
      by auto
    from F'(3) have "\<forall>kv\<in>set F'. kv \<in> set ?E \<or> (fst kv = ''type'' \<and> (\<forall>q. snd kv \<noteq> VRef q))"
      by auto
    with F'(1,2) True show ?thesis by (intro exI[of _ F']) simp
  next
    case False
    with d show ?thesis by (intro exI[of _ ?E]) simp
  qed
  then obtain F2 where F2: "?h2 ! length ?h = Obj F2" "distinct (map fst F2)"
    "\<forall>kv\<in>set F2. kv \<in> set ?E \<or> (fst kv = ''type'' \<and> (\<forall>q. snd kv \<noteq> VRef q))"
    by blast
  have l2: "length ?h < length ?h2" by simp
  from fold_delProp_fields[OF l2 F2(1,2), of removedKeys] obtain F3 where
    F3: "?h3 ! length ?h = Obj F3" "distinct (map fst F3)"
      "\<forall>kv\<in>set F3. kv \<in> set F2 \<and> fst kv \<notin> set removedKeys" by blast
  have ok3: "\<forall>kv\<in>set F3. (kv \<in> set ?E \<and> fst kv \<notin> set removedKeys)
                \<or> (fst kv = ''type'' \<and> (\<forall>q. snd kv \<noteq> VRef q))"
    using F3(3) F2(3) by blast
  have l3: "length ?h < length ?h3" by simp
  show ?thesis
  proof (cases "truthy (getProp ?h3 a ''nullable'')")
    case False
    with st1 have e: "heap st1 = ?h3" by simp
    from ok3 have "\<forall>kv\<in>set F3. (kv \<in> set ?E \<and> fst kv \<notin> set removedKeys)
                \<or> freshType ?h3 (length ?h) kv"
      by (auto simp: freshType_def)
    with F3(1,2) show ?thesis unfolding e j by blast
  next
    case True
    then have h4: "?h4 = foldNullable (length ?h) ?h3" by simp
    from foldNullable_fields[OF l3 F3(1,2)] obtain F4 where
      F4: "foldNullable (length ?h) ?h3 ! length ?h = Obj F4" "distinct (map fst F4)"
        "\<forall>kv\<in>set F4. kv \<in> set F3 \<or> freshType (foldNullable (length ?h) ?h3) (length ?h) kv"
      by blast
    have "\<forall>kv\<in>set F4. (kv \<in> set ?E \<and> fst kv \<notin> set removedKeys)
            \<or> freshType (foldNullable (length ?h) ?h3) (length ?h) kv"
    proof
      fix kv assume "kv \<in> set F4"
      with F4(3) have "kv \<in> set F3 \<or> freshType (foldNullable (length ?h) ?h3) (length ?h) kv"
        by simp
      then show "(kv \<in> set ?E \<and> fst kv \<notin> set removedKeys)
            \<or> freshType (foldNullable (length ?h) ?h3) (length ?h) kv"
      proof
        assume "kv \<in> set F3"
        with ok3 show ?thesis by (auto simp: freshType_def)
      qed simp
    qed
    moreover from st1 h4 have "heap st1 = foldNullable (length ?h) ?h3" by simp
    ultimately show ?thesis using F4(1,2) unfolding j by auto
  qed
qed

text \<open>
  The result of a call on a node of \<open>N\<close> is a finite tree made of cells of the document
  and of cells allocated by the call.
\<close>

definition schemaTree :: "nat \<Rightarrow> nat set \<Rightarrow> nat set \<Rightarrow> nat \<Rightarrow> bool" where
  "schemaTree n0 T N n =
     (\<forall>a st j st'. mapSchema n (VRef a) st = Some (Inr (VRef j), st')
          \<and> traversal n0 T N (heap st) \<and> a \<in> N
        \<longrightarrow> treeIn (heap st') ({..<n0} \<union> {length (heap st)..<length (heap st')}) (VRef j))"

lemma schemaTreeD:
  assumes "schemaTree n0 T N n" "mapSchema n (VRef a) st = Some (Inr (VRef j), st')"
    "traversal n0 T N (heap st)" "a \<in> N"
  shows "treeIn (heap st') ({..<n0} \<union> {length (heap st)..<length (heap st')}) (VRef j)"
  by (rule assms(1)[unfolded schemaTree_def, rule_format,
        OF conjI[OF assms(2) conjI[OF assms(3) assms(4)]]])

lemma traversal_len: "traversal n0 T N h \<Longrightarrow> n0 \<le> length h"
  by (simp add: traversal_def closedUpTo_def)

lemma setProp_mem:
  assumes "j < length h" "h ! j = Obj F"
  shows "\<exists>F'. setProp j k v h ! j = Obj F' \<and> (\<forall>kv\<in>set F'. kv = (k, v) \<or> kv \<in> set F)"
proof (cases "k = ''__proto__'' \<and> k \<notin> fst ` set F")
  case True
  then have "k = ''__proto__''" "k \<notin> fst ` set F" by blast+
  with assms have "setProp j k v h = h" by (simp add: setProp_def cell_def)
  with assms show ?thesis by (intro exI[of _ F]) simp
next
  case False
  with assms have "setProp j k v h ! j = Obj (AList.update k v F)"
    by (auto simp: setProp_def cell_def)
  moreover have "\<forall>kv\<in>set (AList.update k v F). kv = (k, v) \<or> kv \<in> set F"
    by (auto dest: update_mem)
  ultimately show ?thesis by (intro exI[of _ "AList.update k v F"]) simp
qed

lemma mapProps_tree:
  assumes S: "schemaTree n0 T N n" and m: "n0 \<le> m"
  shows "mapProps n m es st = Some (Inr (), st') \<Longrightarrow> traversal n0 T N (heap st)
     \<Longrightarrow> \<forall>q. VRef q \<in> snd ` set es \<longrightarrow> q \<in> N \<Longrightarrow> m < length (heap st)
     \<Longrightarrow> heap st ! m = Obj acc
     \<Longrightarrow> \<forall>kv\<in>set acc. treeIn (heap st) ({..<n0} \<union> {m<..<length (heap st)}) (snd kv)
     \<Longrightarrow> \<exists>acc'. heap st' ! m = Obj acc'
            \<and> (\<forall>kv\<in>set acc'. treeIn (heap st') ({..<n0} \<union> {m<..<length (heap st')}) (snd kv))"
proof (induction es arbitrary: st acc)
  case Nil
  then show ?case by auto
next
  case (Cons kv es)
  obtain key v where kv: "kv = (key, v)" by (cases kv)
  note run = Cons.prems(1) and tr = Cons.prems(2) and ch = Cons.prems(3)
    and ml = Cons.prems(4) and c = Cons.prems(5) and ok = Cons.prems(6)
  from ch have ch': "\<forall>q. VRef q \<in> snd ` set es \<longrightarrow> q \<in> N" by auto
  have step: "\<exists>acc'. heap st' ! m = Obj acc'
            \<and> (\<forall>kv\<in>set acc'. treeIn (heap st') ({..<n0} \<union> {m<..<length (heap st')}) (snd kv))"
    if tl: "mapProps n m es (setPropS m key r s1) = Some (Inr (), st')"
      and s1: "traversal n0 T N (heap s1)" "m < length (heap s1)" "heap s1 ! m = Obj acc1"
        "\<forall>kv\<in>set acc1. treeIn (heap s1) ({..<n0} \<union> {m<..<length (heap s1)}) (snd kv)"
        "treeIn (heap s1) ({..<n0} \<union> {m<..<length (heap s1)}) r" for r s1 acc1
  proof -
    let ?s = "setPropS m key r s1"
    let ?B = "{..<n0} \<union> {m<..<length (heap s1)}"
    have g: "grows {m} (heap s1) (heap ?s)" by (simp add: setPropS_def)
    have len: "length (heap ?s) = length (heap s1)" by (simp add: setPropS_def)
    have tr': "traversal n0 T N (heap ?s)"
      by (rule traversal_grows[OF s1(1) g]) (use m in simp)
    have B: "?B \<subseteq> {..<length (heap s1)}" "?B \<inter> {m} = {}"
      using traversal_len[OF s1(1)] m by auto
    from setProp_mem[OF s1(2,3), of key r] obtain acc2 where
      a2: "heap ?s ! m = Obj acc2" "\<forall>kv\<in>set acc2. kv = (key, r) \<or> kv \<in> set acc1"
      by (auto simp: setPropS_def)
    have ok2: "\<forall>kv\<in>set acc2. treeIn (heap ?s) ({..<n0} \<union> {m<..<length (heap ?s)}) (snd kv)"
    proof
      fix kv assume "kv \<in> set acc2"
      with a2(2) s1(4,5) have "treeIn (heap s1) ?B (snd kv)" by auto
      from treeIn_grows[OF this g B] show
        "treeIn (heap ?s) ({..<n0} \<union> {m<..<length (heap ?s)}) (snd kv)"
        unfolding len .
    qed
    have ml': "m < length (heap ?s)" using s1(2) len by simp
    from Cons.IH[OF tl tr' ch' ml' a2(1) ok2] show ?thesis .
  qed
  show ?case
  proof (cases v)
    case (VRef p)
    with run kv have
      "bindR (mapSchema n (VRef p) st) (\<lambda>r st'. mapProps n m es (setPropS m key r st'))
         = Some (Inr (), st')" by simp
    then show ?thesis
    proof (cases rule: bindR_Some)
      case (thrown e)
      then show ?thesis by simp
    next
      case (returned r s1)
      from schemaShapeD[OF mapSchema_shape returned(1)] obtain j where
        j: "r = VRef j" and stp: "steps {} st s1" by auto
      from stp have g: "grows {} (heap st) (heap s1)" by (simp add: steps_def)
      have tr1: "traversal n0 T N (heap s1)" by (rule traversal_grows[OF tr g]) simp
      from ch kv VRef have pN: "p \<in> N" by force
      let ?B = "{..<n0} \<union> {m<..<length (heap st)}"
      let ?B1 = "{..<n0} \<union> {m<..<length (heap s1)}"
      have sub: "?B \<subseteq> ?B1" using grows_length[OF g] by auto
      from schemaTreeD[OF S returned(1)[unfolded j] tr pN]
      have "treeIn (heap s1) ({..<n0} \<union> {length (heap st)..<length (heap s1)}) (VRef j)" .
      then have tj: "treeIn (heap s1) ?B1 r" unfolding j
        by (rule treeIn_mono) (use ml in auto)
      have B: "?B \<subseteq> {..<length (heap st)}" "?B \<inter> {} = {}"
        using traversal_len[OF tr] by auto
      have ok1: "\<forall>kv\<in>set acc. treeIn (heap s1) ?B1 (snd kv)"
      proof
        fix kv assume "kv \<in> set acc"
        with ok have "treeIn (heap st) ?B (snd kv)" by simp
        from treeIn_mono[OF treeIn_grows[OF this g B] sub]
        show "treeIn (heap s1) ?B1 (snd kv)" .
      qed
      from c have na: "\<not> isArr (heap st ! m)" by simp
      from grows_same[OF g ml _ na] c have c1: "heap s1 ! m = Obj acc" by simp
      from grows_length[OF g] ml have ml1: "m < length (heap s1)" by simp
      from step[OF returned(2) tr1 ml1 c1 ok1 tj] show ?thesis .
    qed
  next
    case (VBool b)
    with run kv have tl: "mapProps n m es (setPropS m key (VBool b) st) = Some (Inr (), st')"
      by simp
    have "treeIn (heap st) ({..<n0} \<union> {m<..<length (heap st)}) (VBool b)"
      by (rule treeIn.leaf) simp
    from step[OF tl tr ml c ok this] show ?thesis .
  next
    case VUndefined
    with run kv have "mapProps n m es st = Some (Inr (), st')" by simp
    from Cons.IH[OF this tr ch' ml c ok] show ?thesis .
  next
    case VNull
    with run kv have "mapProps n m es st = Some (Inr (), st')" by simp
    from Cons.IH[OF this tr ch' ml c ok] show ?thesis .
  next
    case (VNum x)
    with run kv have "mapProps n m es st = Some (Inr (), st')" by simp
    from Cons.IH[OF this tr ch' ml c ok] show ?thesis .
  next
    case (VStr x)
    with run kv have "mapProps n m es st = Some (Inr (), st')" by simp
    from Cons.IH[OF this tr ch' ml c ok] show ?thesis .
  qed
qed

lemma object_entries_append:
  "\<forall>p. v = VRef p \<longrightarrow> p < length h \<Longrightarrow> object_entries (h @ cs) v = object_entries h v"
  by (cases v) (simp_all add: object_entries_def cell_append)

lemma propertiesPart_tree:
  assumes S: "schemaTree n0 T N n"
    and run: "propertiesPart n j st1 = Some (Inr u, s4)"
    and tr: "traversal n0 T N (heap st1)" and j: "n0 \<le> j" "j < length (heap st1)"
    and c: "heap st1 ! j = Obj F1" "distinct (map fst F1)"
    and pl: "\<forall>p. getProp (heap st1) j ''properties'' = VRef p \<longrightarrow> p < length (heap st1)"
    and ch: "\<forall>q. VRef q \<in> snd ` set (object_entries (heap st1)
                                        (getProp (heap st1) j ''properties'')) \<longrightarrow> q \<in> N"
  shows "\<exists>F4. heap s4 ! j = Obj F4 \<and> distinct (map fst F4)
          \<and> (\<forall>kv\<in>set F4.
                (kv \<in> set F1 \<and>
                 (getProp (heap st1) j ''type'' = VStr ''object''
                    \<and> truthy (getProp (heap st1) j ''properties'') \<longrightarrow> fst kv \<noteq> ''properties''))
                \<or> treeIn (heap s4) ({..<n0} \<union> {j<..<length (heap s4)}) (snd kv))"
proof (cases "getProp (heap st1) j ''type'' = VStr ''object''
               \<and> truthy (getProp (heap st1) j ''properties'')")
  case False
  with run have "s4 = st1" by (auto simp: propertiesPart_def)
  with c False show ?thesis by (intro exI[of _ F1]) blast
next
  case True
  let ?m = "length (heap st1)"
  let ?st2 = "st1\<lparr>heap := heap st1 @ [Obj []]\<rparr>"
  let ?pv = "getProp (heap st1) j ''properties''"
  have pv2: "getProp (heap ?st2) j ''properties'' = ?pv" using j(2) by (simp add: getProp_append)
  have es: "object_entries (heap ?st2) (getProp (heap ?st2) j ''properties'')
              = object_entries (heap st1) ?pv"
    unfolding pv2 using pl by (simp add: object_entries_append)
  from run True have
    "bindR (mapProps n ?m (object_entries (heap st1) ?pv) ?st2)
       (\<lambda>_ st3. Some (Inr (), setPropS j ''properties'' (VRef ?m) st3)) = Some (Inr u, s4)"
    unfolding propertiesPart_def allocS_eq es[symmetric] by simp
  then obtain u2 st3 where
    M: "mapProps n ?m (object_entries (heap st1) ?pv) ?st2 = Some (Inr u2, st3)"
    and s4: "s4 = setPropS j ''properties'' (VRef ?m) st3"
    by (cases rule: bindR_Some) auto
  have g12: "grows {} (heap st1) (heap ?st2)" by simp
  have tr2: "traversal n0 T N (heap ?st2)" by (rule traversal_grows[OF tr g12]) simp
  from traversal_len[OF tr] have m0: "n0 \<le> ?m" .
  from M have M': "mapProps n ?m (object_entries (heap st1) ?pv) ?st2 = Some (Inr (), st3)"
    by simp
  have ml2: "?m < length (heap ?st2)" by simp
  have c2: "heap ?st2 ! ?m = Obj []" by simp
  have ok2: "\<forall>kv\<in>set []. treeIn (heap ?st2) ({..<n0} \<union> {?m<..<length (heap ?st2)}) (snd kv)"
    by simp
  from mapProps_tree[OF S m0 M' tr2 ch ml2 c2 ok2]
  obtain acc' where acc': "heap st3 ! ?m = Obj acc'"
    "\<forall>kv\<in>set acc'. treeIn (heap st3) ({..<n0} \<union> {?m<..<length (heap st3)}) (snd kv)"
    by blast
  from mapProps_shape[OF mapSchema_shape M] have
    g23: "grows {?m} (heap ?st2) (heap st3)" by (simp add: steps_def)
  from grows_length[OF g23] have m3: "?m < length (heap st3)" by simp
  let ?B = "{..<n0} \<union> {j<..<length (heap st3)}"
  have tm: "treeIn (heap st3) ?B (VRef ?m)"
  proof (rule treeIn.node)
    show "?m \<in> ?B" using j(2) m3 by simp
    show "\<forall>v\<in>set (vals (cell (heap st3) ?m)). treeIn (heap st3) ?B v"
    proof
      fix v assume "v \<in> set (vals (cell (heap st3) ?m))"
      with acc'(1) m3 obtain kv where "kv \<in> set acc'" "v = snd kv"
        by (auto simp: cell_def)
      with acc'(2) have "treeIn (heap st3) ({..<n0} \<union> {?m<..<length (heap st3)}) v" by simp
      then show "treeIn (heap st3) ?B v" by (rule treeIn_mono) (use j(2) in auto)
    qed
  qed
  have j2: "j < length (heap ?st2)" "j \<notin> {?m}" "\<not> isArr (heap ?st2 ! j)"
    using j(2) c(1) by (simp_all add: nth_append)
  from grows_same[OF g23 j2] c(1) j(2) have c3: "heap st3 ! j = Obj F1"
    by (simp add: nth_append)
  from grows_length[OF g23] j(2) have j3: "j < length (heap st3)" by simp
  have hs4: "heap s4 = setProp j ''properties'' (VRef ?m) (heap st3)"
    using s4 by (simp add: setPropS_def)
  have len4: "length (heap s4) = length (heap st3)" unfolding hs4 by simp
  have c4: "heap s4 ! j = Obj (AList.update ''properties'' (VRef ?m) F1)"
    unfolding hs4 using j3 c3 by (simp add: nth_setProp_same)
  have g34: "grows {j} (heap st3) (heap s4)" unfolding hs4 by simp
  have B: "?B \<subseteq> {..<length (heap st3)}" "?B \<inter> {j} = {}"
    using traversal_len[OF tr] j(2) grows_length[OF g23] j(1) by auto
  from treeIn_grows[OF tm g34 B] have tm4: "treeIn (heap s4) ?B (VRef ?m)" .
  have "\<forall>kv\<in>set (AList.update ''properties'' (VRef ?m) F1).
          (kv \<in> set F1 \<and> fst kv \<noteq> ''properties'')
          \<or> treeIn (heap s4) ({..<n0} \<union> {j<..<length (heap s4)}) (snd kv)"
  proof
    fix kv assume "kv \<in> set (AList.update ''properties'' (VRef ?m) F1)"
    from update_mem_distinct[OF c(2) this] tm4
    show "(kv \<in> set F1 \<and> fst kv \<noteq> ''properties'')
          \<or> treeIn (heap s4) ({..<n0} \<union> {j<..<length (heap s4)}) (snd kv)"
      unfolding len4 by auto
  qed
  with c4 distinct_update[OF c(2)] show ?thesis
    by (intro exI[of _ "AList.update ''properties'' (VRef ?m) F1"]) blast
qed

lemma itemsPart_tree:
  assumes S: "schemaTree n0 T N n"
    and run: "itemsPart n j s4 = Some (Inr u, st6)"
    and tr: "traversal n0 T N (heap s4)" and j: "n0 \<le> j" "j < length (heap s4)"
    and c: "heap s4 ! j = Obj F4" "distinct (map fst F4)"
    and ch: "\<forall>i. getProp (heap s4) j ''items'' = VRef i \<longrightarrow> i \<in> N"
  shows "\<exists>F6. heap st6 ! j = Obj F6
          \<and> (\<forall>kv\<in>set F6.
                (kv \<in> set F4 \<and>
                 ((\<exists>i. getProp (heap s4) j ''items'' = VRef i)
                    \<and> getProp (heap s4) j ''type'' = VStr ''array'' \<longrightarrow> fst kv \<noteq> ''items''))
                \<or> treeIn (heap st6) ({..<n0} \<union> {j<..<length (heap st6)}) (snd kv))"
proof (cases "(\<exists>i. getProp (heap s4) j ''items'' = VRef i)
               \<and> getProp (heap s4) j ''type'' = VStr ''array''")
  case False
  with run have "st6 = s4" by (auto simp: itemsPart_def split: val.splits if_splits)
  with c False show ?thesis by (intro exI[of _ F4]) blast
next
  case True
  then obtain i where i: "getProp (heap s4) j ''items'' = VRef i"
    and ty: "getProp (heap s4) j ''type'' = VStr ''array''" by blast
  from run i ty have
    "bindR (mapSchema n (VRef i) s4)
       (\<lambda>r st5. Some (Inr (), setPropS j ''items'' r st5)) = Some (Inr u, st6)"
    by (simp add: itemsPart_def)
  then obtain r st5 where
    R: "mapSchema n (VRef i) s4 = Some (Inr r, st5)"
    and s6: "st6 = setPropS j ''items'' r st5"
    by (cases rule: bindR_Some) auto
  from schemaShapeD[OF mapSchema_shape R] obtain k where
    k: "r = VRef k" and stp: "steps {} s4 st5" by auto
  from stp have g: "grows {} (heap s4) (heap st5)" by (simp add: steps_def)
  from ch i have iN: "i \<in> N" by simp
  let ?B = "{..<n0} \<union> {j<..<length (heap st5)}"
  from schemaTreeD[OF S R[unfolded k] tr iN]
  have "treeIn (heap st5) ({..<n0} \<union> {length (heap s4)..<length (heap st5)}) (VRef k)" .
  then have tk: "treeIn (heap st5) ?B r" unfolding k
    by (rule treeIn_mono) (use j(2) in auto)
  from c(1) have na: "\<not> isArr (heap s4 ! j)" by simp
  from grows_same[OF g j(2) _ na] c(1) have c5: "heap st5 ! j = Obj F4" by simp
  from grows_length[OF g] j(2) have j5: "j < length (heap st5)" by simp
  have hs6: "heap st6 = setProp j ''items'' r (heap st5)"
    using s6 by (simp add: setPropS_def)
  have len6: "length (heap st6) = length (heap st5)" unfolding hs6 by simp
  have c6: "heap st6 ! j = Obj (AList.update ''items'' r F4)"
    unfolding hs6 using j5 c5 by (simp add: nth_setProp_same)
  have g56: "grows {j} (heap st5) (heap st6)" unfolding hs6 by simp
  have B: "?B \<subseteq> {..<length (heap st5)}" "?B \<inter> {j} = {}"
    using traversal_len[OF tr] j grows_length[OF g] by auto
  from treeIn_grows[OF tk g56 B] have tk6: "treeIn (heap st6) ?B r" .
  have "\<forall>kv\<in>set (AList.update ''items'' r F4).
          (kv \<in> set F4 \<and> fst kv \<noteq> ''items'')
          \<or> treeIn (heap st6) ({..<n0} \<union> {j<..<length (heap st6)}) (snd kv)"
  proof
    fix kv assume "kv \<in> set (AList.update ''items'' r F4)"
    from update_mem_distinct[OF c(2) this] tk6
    show "(kv \<in> set F4 \<and> fst kv \<noteq> ''items'')
          \<or> treeIn (heap st6) ({..<n0} \<union> {j<..<length (heap st6)}) (snd kv)"
      unfolding len6 by auto
  qed
  with c6 show ?thesis
    by (intro exI[of _ "AList.update ''items'' r F4"]) blast
qed

lemma object_entries_nonref:
  "\<forall>p. v \<noteq> VRef p \<Longrightarrow> VRef q \<notin> snd ` set (object_entries h v)"
  by (cases v) (auto simp: object_entries_def dest!: set_zip_rightD)

lemma lookup_mem:
  "(case map_of E k of None \<Rightarrow> VUndefined | Some v \<Rightarrow> v) = VRef p \<Longrightarrow> (k, VRef p) \<in> set E"
  by (auto split: option.splits dest: map_of_SomeD)

lemma lookup_distinct:
  "distinct (map fst E) \<Longrightarrow> (k, v) \<in> set E
     \<Longrightarrow> (case map_of E k of None \<Rightarrow> VUndefined | Some v \<Rightarrow> v) = v"
  by simp

lemma schemaTree_step:
  assumes S: "schemaTree n0 T N n"
  shows "schemaTree n0 T N (Suc n)"
  unfolding schemaTree_def
proof (intro allI impI)
  fix a st j st'
  assume pre: "mapSchema (Suc n) (VRef a) st = Some (Inr (VRef j), st')
                 \<and> traversal n0 T N (heap st) \<and> a \<in> N"
  then have run: "mapSchema (Suc n) (VRef a) st = Some (Inr (VRef j), st')"
    and tr: "traversal n0 T N (heap st)" and aN: "a \<in> N" by simp_all
  let ?h = "heap st"
  from tr have c: "closedUpTo n0 ?h" and TN: "T \<subseteq> N"
    and d: "\<forall>a<n0. distinct (map fst (entries_of (?h ! a)))"
    and tT: "\<forall>a\<in>T. treeIn ?h {..<n0} (VRef a) \<and> (\<forall>q. VRef q \<in> set (vals (?h ! a)) \<longrightarrow> q \<in> T)"
    and nn: "\<forall>a\<in>N. a < n0 \<and>
           (hasProp ?h a ''$ref'' \<or> (\<forall>kv\<in>set (entries_of (?h ! a)). fieldOK T N ?h a kv))"
    by (simp_all add: traversal_def)
  from nn aN have a0: "a < n0"
    and fa: "hasProp ?h a ''$ref'' \<or> (\<forall>kv\<in>set (entries_of (?h ! a)). fieldOK T N ?h a kv)"
    by auto
  from traversal_len[OF tr] have n0: "n0 \<le> length ?h" .
  from a0 n0 have al: "a < length ?h" by simp
  then have ca: "cell ?h a = ?h ! a" by (simp add: cell_def)
  show "treeIn (heap st') ({..<n0} \<union> {length ?h..<length (heap st')}) (VRef j)"
  proof (cases "hasProp ?h a ''$ref'' \<or> a \<in> seen st")
    case True
    with run obtain dg where "genericObject (warn dg st) = (Inr (VRef j), st')"
      unfolding mapSchema_Suc_ref by (auto split: if_splits)
    then have j: "j = length ?h"
      and h': "heap st' = ?h @ [Obj [(''type'', VStr ''object'')]]"
      by (auto simp: genericObject_eq warn_def)
    show ?thesis
    proof (rule treeIn.node)
      show "j \<in> {..<n0} \<union> {length ?h..<length (heap st')}" using j h' by simp
      show "\<forall>v\<in>set (vals (cell (heap st') j)).
              treeIn (heap st') ({..<n0} \<union> {length ?h..<length (heap st')}) v"
        unfolding j h' by (auto simp: cell_def intro: treeIn.leaf)
    qed
  next
    case False
    then have nr: "\<not> hasProp ?h a ''$ref''" and ns: "a \<notin> seen st" by simp_all
    let ?E = "entries_of (?h ! a)"
    from fa nr have fE: "\<forall>kv\<in>set ?E. fieldOK T N ?h a kv" by simp
    from d a0 have dE: "distinct (map fst ?E)" by simp
    let ?st0 = "st\<lparr>seen := insert a (seen st)\<rparr>"
    obtain j0 st1 where pc: "prepareCopy a ?st0 = (j0, st1)" by (cases "prepareCopy a ?st0")
    note sh = prepareCopy_shape[OF pc, simplified]
    have fs: "fst (prepareCopy a ?st0) = j0" "snd (prepareCopy a ?st0) = st1"
      using pc by simp_all
    from run nr ns have
      "finallyR (bindR (propertiesPart n j0 st1)
                   (\<lambda>_ st4. bindR (itemsPart n j0 st4) (\<lambda>_ st6. Some (Inr (VRef j0), st6))))
         (\<lambda>st7. st7\<lparr>seen := seen st7 - {a}\<rparr>) = Some (Inr (VRef j), st')"
      unfolding mapSchema_Suc_ref fs by simp
    then obtain st6 where
      body: "bindR (propertiesPart n j0 st1)
               (\<lambda>_ st4. bindR (itemsPart n j0 st4) (\<lambda>_ st6. Some (Inr (VRef j0), st6)))
              = Some (Inr (VRef j), st6)"
      and st': "st' = st6\<lparr>seen := seen st6 - {a}\<rparr>"
      by (rule finallyR_Some)
    from body obtain u s4 where
      P: "propertiesPart n j0 st1 = Some (Inr u, s4)"
      and rest: "bindR (itemsPart n j0 s4) (\<lambda>_ st6. Some (Inr (VRef j0), st6))
                  = Some (Inr (VRef j), st6)"
      by (cases rule: bindR_Some) simp_all
    from rest obtain u' where
      I: "itemsPart n j0 s4 = Some (Inr u', st6)" and jj: "j0 = j"
      by (cases rule: bindR_Some) simp_all
    note P = P[unfolded jj] and I = I[unfolded jj] and sh = sh[unfolded jj]
      and pc = pc[unfolded jj]
    have "\<exists>F. heap st1 ! j = Obj F \<and> distinct (map fst F)
            \<and> (\<forall>kv\<in>set F. (kv \<in> set (entries_of (cell (heap ?st0) a))
                               \<and> fst kv \<notin> set removedKeys)
                          \<or> freshType (heap st1) j kv)"
      by (rule prepareCopy_fields[OF pc]) (use dE ca in simp)
    then obtain F1 where F1: "heap st1 ! j = Obj F1" "distinct (map fst F1)"
      "\<forall>kv\<in>set F1. (kv \<in> set ?E \<and> fst kv \<notin> set removedKeys) \<or> freshType (heap st1) j kv"
      using ca by auto
    have g01: "grows {} ?h (heap st1)" by (rule sh(2))
    have tr1: "traversal n0 T N (heap st1)" by (rule traversal_grows[OF tr g01]) simp
    have j0': "n0 \<le> j" using sh(1) n0 by simp
    have look: "getProp (heap st1) j k = (case map_of ?E k of None \<Rightarrow> VUndefined | Some v \<Rightarrow> v)"
      if "k \<noteq> ''type''" "k \<notin> set removedKeys" for k
      using prepareCopy_getProp[OF pc that] ca by simp
    have closedE: "p < n0" if "(k, VRef p) \<in> set ?E" for k p
    proof -
      from c a0 have "refs_below n0 (?h ! a)" by (simp add: closedUpTo_def)
      from refs_below_entries[OF this that] show ?thesis .
    qed
    let ?pv = "getProp (heap st1) j ''properties''"
    have lookP: "?pv = (case map_of ?E ''properties'' of None \<Rightarrow> VUndefined | Some v \<Rightarrow> v)"
      by (rule look) (simp_all add: removedKeys_def)
    have lookI: "getProp (heap st1) j ''items''
                   = (case map_of ?E ''items'' of None \<Rightarrow> VUndefined | Some v \<Rightarrow> v)"
      by (rule look) (simp_all add: removedKeys_def)
    have pvE: "(''properties'', VRef p) \<in> set ?E" if "?pv = VRef p" for p
      by (rule lookup_mem) (use that lookP in simp)
    have pl: "\<forall>p. ?pv = VRef p \<longrightarrow> p < length (heap st1)"
      using closedE[OF pvE] n0 grows_length[OF g01] by fastforce
    have chP: "\<forall>q. VRef q \<in> snd ` set (object_entries (heap st1) ?pv) \<longrightarrow> q \<in> N"
    proof (intro allI impI)
      fix q assume q: "VRef q \<in> snd ` set (object_entries (heap st1) ?pv)"
      show "q \<in> N"
      proof (cases "\<exists>p. ?pv = VRef p")
        case False
        with object_entries_nonref[of ?pv q "heap st1"] q show ?thesis by simp
      next
        case True
        then obtain p where pv: "?pv = VRef p" ..
        from pvE[OF pv] have mem: "(''properties'', VRef p) \<in> set ?E" .
        from closedE[OF mem] n0 have plen: "p < length ?h" by simp
        have q0: "VRef q \<in> snd ` set (object_entries ?h (VRef p))"
          by (rule object_entries_grows[OF g01 _ q[unfolded pv]]) (use plen in simp)
        from fE mem have "fieldOK T N ?h a (''properties'', VRef p)" by blast
        then consider (t) "p \<in> T" | (dsc) "descendsInto ?h N a (''properties'', VRef p)"
          unfolding fieldOK_def by (auto simp: removedKeys_def)
        then show ?thesis
        proof cases
          case t
          from q0 plen have "VRef q \<in> set (vals (?h ! p))"
            using snd_entries[of "?h ! p"] by (simp add: object_entries_def cell_def)
          with tT t have "q \<in> T" by blast
          with TN show ?thesis by blast
        next
          case dsc
          with q0 show ?thesis by (simp add: descendsInto_def)
        qed
      qed
    qed
    from propertiesPart_tree[OF S P tr1 j0' sh(3) F1(1,2) pl chP] obtain F4 where
      F4: "heap s4 ! j = Obj F4" "distinct (map fst F4)"
        "\<forall>kv\<in>set F4.
           (kv \<in> set F1 \<and>
            (getProp (heap st1) j ''type'' = VStr ''object'' \<and> truthy ?pv
               \<longrightarrow> fst kv \<noteq> ''properties''))
           \<or> treeIn (heap s4) ({..<n0} \<union> {j<..<length (heap s4)}) (snd kv)"
      by blast
    from propertiesPart_shape[OF mapSchema_shape P sh(3)] have
      g14: "grows {j} (heap st1) (heap s4)" by (simp add: steps_def)
    from grows_length[OF g14] sh(3) have l4: "j < length (heap s4)" by simp
    have tr4: "traversal n0 T N (heap s4)"
      by (rule traversal_grows[OF tr1 g14]) (use j0' in simp)
    have it4: "getProp (heap s4) j ''items'' = getProp (heap st1) j ''items''"
      by (rule propertiesPart_keeps[OF P sh(3) sh(4)]) simp
    have ty4: "getProp (heap s4) j ''type'' = getProp (heap st1) j ''type''"
      by (rule propertiesPart_keeps[OF P sh(3) sh(4)]) simp
    have itE: "(''items'', VRef i) \<in> set ?E" if "getProp (heap s4) j ''items'' = VRef i" for i
      by (rule lookup_mem) (use that it4 lookI in simp)
    have chI: "\<forall>i. getProp (heap s4) j ''items'' = VRef i \<longrightarrow> i \<in> N"
    proof (intro allI impI)
      fix i assume "getProp (heap s4) j ''items'' = VRef i"
      from itE[OF this] fE have "fieldOK T N ?h a (''items'', VRef i)" by blast
      then have "i \<in> T \<or> i \<in> N"
        unfolding fieldOK_def descendsInto_def by (auto simp: removedKeys_def)
      with TN show "i \<in> N" by blast
    qed
    from itemsPart_tree[OF S I tr4 j0' l4 F4(1,2) chI] obtain F6 where
      F6: "heap st6 ! j = Obj F6"
        "\<forall>kv\<in>set F6.
           (kv \<in> set F4 \<and>
            ((\<exists>i. getProp (heap s4) j ''items'' = VRef i)
               \<and> getProp (heap s4) j ''type'' = VStr ''array'' \<longrightarrow> fst kv \<noteq> ''items''))
           \<or> treeIn (heap st6) ({..<n0} \<union> {j<..<length (heap st6)}) (snd kv)"
      by blast
    from itemsPart_shape[OF mapSchema_shape I] have
      g46: "grows {j} (heap s4) (heap st6)" by (simp add: steps_def)
    have g16: "grows {j} (heap st1) (heap st6)" by (rule grows_trans[OF g14 g46])
    from g01 have "grows {j} ?h (heap st1)" by (rule grows_mono) simp
    from grows_trans[OF this g16] have g06: "grows {j} ?h (heap st6)" .
    have tr6: "traversal n0 T N (heap st6)"
      by (rule traversal_grows[OF tr g06]) (use j0' in simp)
    from grows_length[OF g46] l4 have l6: "j < length (heap st6)" by simp
    let ?B6 = "{..<n0} \<union> {j<..<length (heap st6)}"
    have all6: "\<forall>kv\<in>set F6. treeIn (heap st6) ?B6 (snd kv)"
    proof
      fix kv assume k6: "kv \<in> set F6"
      from F6(2) k6 consider (new6) "treeIn (heap st6) ?B6 (snd kv)"
        | (old6) "kv \<in> set F4"
            "(\<exists>i. getProp (heap s4) j ''items'' = VRef i)
               \<and> getProp (heap s4) j ''type'' = VStr ''array'' \<longrightarrow> fst kv \<noteq> ''items''"
        by blast
      then show "treeIn (heap st6) ?B6 (snd kv)"
      proof cases
        case new6
        then show ?thesis .
      next
        case old6
        from F4(3) old6(1) consider
            (new4) "treeIn (heap s4) ({..<n0} \<union> {j<..<length (heap s4)}) (snd kv)"
          | (old4) "kv \<in> set F1"
              "getProp (heap st1) j ''type'' = VStr ''object'' \<and> truthy ?pv
                 \<longrightarrow> fst kv \<noteq> ''properties''"
          by blast
        then show ?thesis
        proof cases
          case new4
          have B: "{..<n0} \<union> {j<..<length (heap s4)} \<subseteq> {..<length (heap s4)}"
            "({..<n0} \<union> {j<..<length (heap s4)}) \<inter> {j} = {}"
            using traversal_len[OF tr4] j0' by auto
          from treeIn_grows[OF new4 g46 B] show ?thesis
            by (rule treeIn_mono) (use grows_length[OF g46] in auto)
        next
          case old4
          from F1(3) old4(1) consider (inE) "kv \<in> set ?E" "fst kv \<notin> set removedKeys"
            | (fresh) "freshType (heap st1) j kv" by blast
          then show ?thesis
          proof cases
            case fresh
            show ?thesis
            proof (cases "\<exists>q. snd kv = VRef q")
              case False
              then show ?thesis by (auto intro: treeIn.leaf)
            next
              case True
              then obtain q where q: "snd kv = VRef q" ..
              with fresh obtain s where
                fq: "j < q" "q < length (heap st1)" "heap st1 ! q = Arr [VStr s, VStr ''null'']"
                by (auto simp: freshType_def)
              from grows_arr[OF g16 fq(2,3)] obtain ys where
                ys: "heap st6 ! q = Arr ([VStr s, VStr ''null''] @ ys)"
                  "\<forall>y\<in>set ys. \<forall>b. y \<noteq> VRef b" by blast
              from grows_length[OF g16] fq(2) have q6: "q < length (heap st6)" by simp
              show ?thesis unfolding q
              proof (rule treeIn.node)
                show "q \<in> ?B6" using fq(1) q6 by simp
                show "\<forall>v\<in>set (vals (cell (heap st6) q)). treeIn (heap st6) ?B6 v"
                  using ys q6 by (auto simp: cell_def intro: treeIn.leaf)
              qed
            qed
          next
            case inE
            from fE inE(1) have ok: "fieldOK T N ?h a kv" by blast
            have kv: "(fst kv, snd kv) \<in> set ?E" using inE(1) by simp
            show ?thesis
            proof (cases "\<exists>p. snd kv = VRef p")
              case False
              then show ?thesis by (auto intro: treeIn.leaf)
            next
              case True
              then obtain p where p: "snd kv = VRef p" ..
              from ok inE(2) p consider (t) "p \<in> T" | (dsc) "descendsInto ?h N a kv"
                unfolding fieldOK_def by auto
              then show ?thesis
              proof cases
                case t
                with tr6 have "treeIn (heap st6) {..<n0} (VRef p)" by (simp add: traversal_def)
                then show ?thesis unfolding p by (rule treeIn_mono) auto
              next
                case dsc
                then have nn': "\<not> truthy (getProp ?h a ''nullable'')"
                  and alt: "(fst kv = ''properties'' \<and> getProp ?h a ''type'' = VStr ''object'')
                          \<or> (fst kv = ''items'' \<and> getProp ?h a ''type'' = VStr ''array'')"
                  by (auto simp: descendsInto_def)
                from alt show ?thesis
                proof
                  assume pr: "fst kv = ''properties'' \<and> getProp ?h a ''type'' = VStr ''object''"
                  have t1: "getProp (heap st1) j ''type'' = VStr ''object''"
                    by (rule prepareCopy_type[OF pc]) (use al pr nn' in simp_all)
                  from kv pr have "(''properties'', snd kv) \<in> set ?E" by simp
                  from lookup_distinct[OF dE this] lookP p have "?pv = VRef p" by simp
                  with t1 old4(2) pr show ?thesis by simp
                next
                  assume it: "fst kv = ''items'' \<and> getProp ?h a ''type'' = VStr ''array''"
                  have t1: "getProp (heap st1) j ''type'' = VStr ''array''"
                    by (rule prepareCopy_type[OF pc]) (use al it nn' in simp_all)
                  from kv it have "(''items'', snd kv) \<in> set ?E" by simp
                  from lookup_distinct[OF dE this] lookI p it4
                  have "getProp (heap s4) j ''items'' = VRef p" by simp
                  with t1 ty4 old6(2) it show ?thesis by simp
                qed
              qed
            qed
          qed
        qed
      qed
    qed
    have "treeIn (heap st6) ({..<n0} \<union> {j..<length (heap st6)}) (VRef j)"
    proof (rule treeIn.node)
      show "j \<in> {..<n0} \<union> {j..<length (heap st6)}" using l6 by simp
      show "\<forall>v\<in>set (vals (cell (heap st6) j)).
              treeIn (heap st6) ({..<n0} \<union> {j..<length (heap st6)}) v"
      proof
        fix v assume "v \<in> set (vals (cell (heap st6) j))"
        with F6(1) l6 obtain kv where "kv \<in> set F6" "v = snd kv" by (auto simp: cell_def)
        with all6 have "treeIn (heap st6) ?B6 v" by simp
        then show "treeIn (heap st6) ({..<n0} \<union> {j..<length (heap st6)}) v"
          by (rule treeIn_mono) auto
      qed
    qed
    with st' sh(1) show ?thesis by simp
  qed
qed

lemma mapSchema_tree: "schemaTree n0 T N n"
proof (induction n)
  case 0
  show ?case by (simp add: schemaTree_def)
next
  case (Suc n)
  then show ?case by (rule schemaTree_step)
qed

lemma treeIn_ref:
  "treeIn h B (VRef a) \<Longrightarrow> a \<in> B \<and> (\<forall>v\<in>set (vals (cell h a)). treeIn h B v)"
  by (erule treeIn.cases) auto

lemma descendsInto_mono: "descendsInto h N a kv \<Longrightarrow> N \<subseteq> N' \<Longrightarrow> descendsInto h N' a kv"
  unfolding descendsInto_def by blast

lemma mapSchema_finiteTree:
  assumes run: "mapSchema n (VRef a) st = Some (Inr (VRef j), st')"
    and closed: "closedUpTo (length (heap st)) (heap st)"
    and dk: "ownKeysDistinct (heap st)" and aN: "a \<in> N"
    and td: "typedDescents (heap st) N"
  shows "finiteTree (heap st') (VRef j)"
proof -
  let ?h = "heap st"
  let ?n0 = "length ?h"
  define T where "T = {a. treeIn ?h {..<?n0} (VRef a)}"
  define N' where "N' = N \<union> T"
  have Tlt: "a < ?n0" if "a \<in> T" for a
    using that treeIn_ref[of ?h "{..<?n0}" a] by (simp add: T_def)
  have Tval: "\<forall>q. v = VRef q \<longrightarrow> q \<in> T" if "treeIn ?h {..<?n0} v" for v
    using that by (auto simp: T_def)
  have Tchild: "treeIn ?h {..<?n0} v" if "a \<in> T" "v \<in> set (vals (?h ! a))" for a v
  proof -
    from that(1) have "treeIn ?h {..<?n0} (VRef a)" by (simp add: T_def)
    from treeIn_ref[OF this] that(2) Tlt[OF that(1)] show ?thesis by (simp add: cell_def)
  qed
  have tr: "traversal ?n0 T N' ?h"
    unfolding traversal_def
  proof (intro conjI ballI allI impI)
    show "closedUpTo ?n0 ?h" by (rule closed)
    show "T \<subseteq> N'" by (simp add: N'_def)
  next
    fix a assume "a < ?n0"
    with dk show "distinct (map fst (entries_of (?h ! a)))" by (simp add: ownKeysDistinct_def)
  next
    fix a assume "a \<in> T"
    then show "treeIn ?h {..<?n0} (VRef a)" by (simp add: T_def)
  next
    fix a q assume "a \<in> T" "VRef q \<in> set (vals (?h ! a))"
    from Tval[OF Tchild[OF this]] show "q \<in> T" by simp
  next
    fix a assume a: "a \<in> N'"
    show "a < ?n0" using a td Tlt by (auto simp: N'_def typedDescents_def)
  next
    fix a assume a: "a \<in> N'"
    show "hasProp ?h a ''$ref'' \<or> (\<forall>kv\<in>set (entries_of (?h ! a)). fieldOK T N' ?h a kv)"
    proof (cases "a \<in> T")
      case True
      have "\<forall>kv\<in>set (entries_of (?h ! a)). fieldOK T N' ?h a kv"
      proof
        fix kv assume "kv \<in> set (entries_of (?h ! a))"
        then have "snd kv \<in> set (vals (?h ! a))" using snd_entries[of "?h ! a"] by force
        from Tval[OF Tchild[OF True this]] show "fieldOK T N' ?h a kv"
          by (simp add: fieldOK_def)
      qed
      then show ?thesis ..
    next
      case False
      with a have aN': "a \<in> N" by (simp add: N'_def)
      with td have al: "a < ?n0"
        and f: "hasProp ?h a ''$ref'' \<or>
                (\<forall>kv\<in>set (entries_of (cell ?h a)).
                    fst kv \<in> set removedKeys \<or> finiteTree ?h (snd kv) \<or> descendsInto ?h N a kv)"
        by (auto simp: typedDescents_def)
      from al have ca: "cell ?h a = ?h ! a" by (simp add: cell_def)
      show ?thesis
      proof (cases "hasProp ?h a ''$ref''")
        case True
        then show ?thesis ..
      next
        case nr: False
        have "\<forall>kv\<in>set (entries_of (?h ! a)). fieldOK T N' ?h a kv"
        proof
          fix kv assume kv: "kv \<in> set (entries_of (?h ! a))"
          with f nr ca have
            "fst kv \<in> set removedKeys \<or> finiteTree ?h (snd kv) \<or> descendsInto ?h N a kv"
            by simp
          moreover have "\<forall>q. snd kv = VRef q \<longrightarrow> q \<in> T" if ft: "finiteTree ?h (snd kv)"
          proof -
            from ft obtain k where k: "unfolds k ?h (snd kv)" by (auto simp: finiteTree_def)
            from kv have "snd kv \<in> set (vals (?h ! a))" using snd_entries[of "?h ! a"] by force
            with closed al have "\<forall>b. snd kv = VRef b \<longrightarrow> b < ?n0"
              by (auto simp: closedUpTo_def refs_below_def)
            from unfolds_treeIn[OF k closed this] show ?thesis by (rule Tval)
          qed
          moreover have "descendsInto ?h N' a kv" if "descendsInto ?h N a kv"
            by (rule descendsInto_mono[OF that]) (simp add: N'_def)
          ultimately show "fieldOK T N' ?h a kv" unfolding fieldOK_def by blast
        qed
        then show ?thesis ..
      qed
    qed
  qed
  from aN have "a \<in> N'" by (simp add: N'_def)
  from schemaTreeD[OF mapSchema_tree run tr this] show ?thesis by (rule treeIn_finiteTree)
qed

lemma refs_below_list:
  "refs_below n0 c = list_all (\<lambda>v. case v of VRef b \<Rightarrow> b < n0 | _ \<Rightarrow> True) (vals c)"
  by (auto simp: refs_below_def list_all_iff split: val.splits)

lemma closedUpTo_list:
  "closedUpTo n0 h = (n0 \<le> length h \<and> list_all (refs_below n0) (take n0 h))"
  by (auto simp: closedUpTo_def list_all_length)

lemma mapSchema_returns:
  assumes closed: "closedUpTo (length (heap st)) (heap st)"
    and a: "a < length (heap st)" and fuel: "length (heap st) < n"
  shows "\<exists>j st'. mapSchema n (VRef a) st = Some (Inr (VRef j), st')
           \<and> length (heap st) \<le> j \<and> j < length (heap st') \<and> \<not> isArr (heap st' ! j)
           \<and> seen st' = seen st
           \<and> (\<forall>b<length (heap st). \<not> isArr (heap st ! b) \<longrightarrow> heap st' ! b = heap st ! b)"
proof -
  have "card ({..<length (heap st)} - seen st) \<le> card {..<length (heap st)}"
    by (rule card_mono) auto
  with fuel have f: "card ({..<length (heap st)} - seen st) < n" by simp
  from schemaTotalD[OF mapSchema_total closed a f] obtain j st' where
    run: "mapSchema n (VRef a) st = Some (Inr (VRef j), st')" and s: "seen st' = seen st"
    by blast
  from schemaShapeD[OF mapSchema_shape run] have
    j: "length (heap st) \<le> j" "j < length (heap st')" "\<not> isArr (heap st' ! j)"
    and st: "steps {} st st'" by auto
  from st have "grows {} (heap st) (heap st')" by (simp add: steps_def)
  then have fr: "\<forall>b<length (heap st). \<not> isArr (heap st ! b) \<longrightarrow> heap st' ! b = heap st ! b"
    by (auto dest: grows_same)
  from run j s fr show ?thesis by blast
qed


text \<open>
  In the diamond both visits of the shared node are mapped (the second is no cycle), and
  only the reference back to the root is cut.
\<close>

lemma diamond_run:
  "(case mapOpenApiSchemaToJsonSchema (VRef 0) diamond of
      Some (Inr (VRef j), st') \<Rightarrow>
        j = 3
        \<and> drop 3 (heap st') =
            [Obj [(''type'', VStr ''object''), (''properties'', VRef 4)],
             Obj [(''left'', VRef 5), (''right'', VRef 6), (''self'', VRef 7)],
             Obj [(''type'', VStr ''string'')], Obj [(''type'', VStr ''string'')],
             Obj [(''type'', VStr ''object'')]]
        \<and> log st' = [CycleDetected VUndefined]
    | _ \<Rightarrow> False)"
  by code_simp

lemma diamond_typed: "typedDescents (heap diamond) {0, 2}"
  by (simp add: typedDescents_def descendsInto_def finiteTree_def diamond_def hasProp_def
      getProp_def cell_def object_entries_def removedKeys_def)


text \<open>
  C2 as stated fails where the mapper does not descend: the node without a type is
  copied with its \<open>properties\<close> as they are, so the result still reaches the cycle and
  does not unfold to a tree of any depth.
\<close>

lemma untypedCycle_run:
  "(case mapOpenApiSchemaToJsonSchema (VRef 0) untypedCycle of
      Some (Inr (VRef j), st') \<Rightarrow>
        j = 2
        \<and> heap st' = [Obj [(''properties'', VRef 1)], Obj [(''self'', VRef 0)],
                      Obj [(''properties'', VRef 1)]]
    | _ \<Rightarrow> False)"
  by code_simp

lemma untypedCycle_unfolds:
  "\<not> unfolds n [Obj [(''properties'', VRef 1)], Obj [(''self'', VRef 0)],
                Obj [(''properties'', VRef 1)]] (VRef 0)
   \<and> \<not> unfolds n [Obj [(''properties'', VRef 1)], Obj [(''self'', VRef 0)],
                  Obj [(''properties'', VRef 1)]] (VRef 1)"
  by (induction n) (simp_all add: cell_def)


text \<open>
  C8 does not hold of the code: the copy is shallow, so the array under \<open>type\<close> is the
  input's own array, and \<open>push('null')\<close> changes it.
\<close>

theorem nullable_union_mutates_input:
  "(case mapOpenApiSchemaToJsonSchema (VRef 0) nullableUnion of
      Some (Inr r, st') \<Rightarrow>
        heap nullableUnion ! 1 = Arr [VStr ''string'']
        \<and> heap st' ! 1 = Arr [VStr ''string'', VStr ''null'']
    | _ \<Rightarrow> False)"
  by code_simp

end
